theory Spec2Isabelle
  imports Main "HOL-Library.Word"
begin

section \<open>The producer/consumer queues of util/pcqueue.hh\<close>

text \<open>
  The header defines a counting semaphore wrapper (\<open>Semaphore\<close>, one variant per platform),
  a bounded queue (\<open>PCQueue\<close>) and an unbounded paged queue (\<open>UnboundedSingleQueue\<close>).
  The embedding follows the Linux variant of \<open>Semaphore\<close>; the fallback \<open>WaitSemaphore\<close>
  and the Apple destructor are modelled next to it where a property refers to them.

  Conventions of the embedding:
  \<^item> A member \<open>name_\<close> of the source is the record field \<open>name_m\<close>.
  \<^item> \<open>size_t\<close> is a 64-bit word and \<open>unsigned int\<close> a 32-bit word, as on 64-bit Linux.
  \<^item> A call is a function from the state before to the state after. A call that never
    returns (a wait on a semaphore whose counter is zero, or a wait interrupted for ever)
    has the value \<open>None\<close>; a call that throws returns \<open>Inl\<close> with the exception and the
    state it leaves behind; a call that returns normally returns \<open>Inr\<close>.
  \<^item> What the operating system does with each call to it is an input of the model
    (\<open>oscall\<close>): it carries the call out, or fails it with an \<open>errno\<close> value.
  \<^item> The element type \<open>T\<close> of the templates is a type variable together with a record of
    its operations (\<open>element\<close>): its default value, and when its assignment and its swap
    throw.
  \<^item> The two mutexes of \<open>PCQueue\<close> serialise callers of the same role. Where a call is
    one atomic function, a \<open>lock_guard\<close> is taken and released within it and the mutexes
    carry no state between calls; the section on several threads splits the calls into
    their steps and keeps the mutexes.
\<close>

subsection \<open>Exceptions and the operating system\<close>

datatype exception =
    ErrnoException int string
  | Exception string
  | interprocess_exception int
  | ElementError string
  | UndefinedBehaviour string

text \<open>
  \<open>ElementError\<close> stands for whatever the element type throws. \<open>UndefinedBehaviour\<close> is
  not an exception of the program: it marks a call that dereferences a null or dangling
  pointer, after which the program has no defined behaviour.
\<close>

text \<open>The outcome the operating system chooses for one call: success, or failure with \<open>errno\<close>.\<close>

datatype oscall = Succeeds | Fails int

text \<open>The values of \<open>EINTR\<close> in \<open><cerrno>\<close> on Linux and of \<open>KERN_SUCCESS\<close> in the Mach headers.\<close>

definition EINTR :: int where
  "EINTR = 4"

definition KERN_SUCCESS :: int where
  "KERN_SUCCESS = 0"

text \<open>
  Modelled from the spec: the macro \<open>UTIL_THROW_IF(condition, exception, message)\<close> is
  defined in util/exception.hh, which is not among the sources. By the spec a failure of
  the underlying call is raised to the caller: the macro throws the exception when the
  condition holds and does nothing otherwise. \<open>UTIL_UNLIKELY\<close>, of the same header, is a
  branch prediction hint and the identity on its argument.
\<close>

definition UTIL_THROW_IF :: "bool \<Rightarrow> exception \<Rightarrow> exception option" where
  "UTIL_THROW_IF condition e = (if condition then Some e else None)"

declare UTIL_THROW_IF_def [simp]

text \<open>
  The POSIX calls on a \<open>sem_t\<close>, whose state is the value of its counter. Each returns the
  return value of the call, the \<open>errno\<close> it sets and the counter afterwards.
  \<open>sem_wait\<close> on a zero counter does not return.
\<close>

definition sem_init :: "oscall \<Rightarrow> 32 word \<Rightarrow> int \<times> int \<times> nat" where
  "sem_init ev v = (case ev of Succeeds \<Rightarrow> (0, 0, unat v) | Fails e \<Rightarrow> (- 1, e, 0))"

definition sem_destroy :: "oscall \<Rightarrow> int \<times> int" where
  "sem_destroy ev = (case ev of Succeeds \<Rightarrow> (0, 0) | Fails e \<Rightarrow> (- 1, e))"

definition sem_wait :: "oscall \<Rightarrow> nat \<Rightarrow> (int \<times> int \<times> nat) option" where
  "sem_wait ev c =
     (case ev of
        Fails e \<Rightarrow> Some (- 1, e, c)
      | Succeeds \<Rightarrow> if c = 0 then None else Some (0, 0, c - 1))"

definition sem_post :: "oscall \<Rightarrow> nat \<Rightarrow> int \<times> int \<times> nat" where
  "sem_post ev c = (case ev of Succeeds \<Rightarrow> (0, 0, Suc c) | Fails e \<Rightarrow> (- 1, e, c))"

subsection \<open>Semaphore (Linux)\<close>

record Semaphore =
  sem_m :: nat

text \<open>\<open>explicit Semaphore(unsigned int value)\<close>: throws when \<open>sem_init\<close> returns non-zero.\<close>

definition Semaphore :: "oscall \<Rightarrow> 32 word \<Rightarrow> exception + Semaphore" where
  "Semaphore ev v =
     (case sem_init ev v of (r, errno, c) \<Rightarrow>
        (case UTIL_THROW_IF (r \<noteq> 0) (ErrnoException errno ''Could not create semaphore'') of
           Some e \<Rightarrow> Inl e
         | None \<Rightarrow> Inr \<lparr>sem_m = c\<rparr>))"

text \<open>
  \<open>void wait()\<close>: the loop \<open>while (-1 == sem_wait(&sem_)) UTIL_THROW_IF(errno != EINTR, ...)\<close>.
  The \<open>i\<close>-th call of \<open>sem_wait\<close> made by this loop meets the outcome \<open>os i\<close>.
\<close>

partial_function (option)
  wait :: "(nat \<Rightarrow> oscall) \<Rightarrow> nat \<Rightarrow> Semaphore \<Rightarrow> (exception + Semaphore) option" where
  "wait os i s =
     (case sem_wait (os i) (sem_m s) of
        None \<Rightarrow> None
      | Some (r, errno, c) \<Rightarrow>
          if - 1 = r then
            (case UTIL_THROW_IF (errno \<noteq> EINTR)
                    (ErrnoException errno ''Wait for semaphore failed'') of
               Some e \<Rightarrow> Some (Inl e)
             | None \<Rightarrow> wait os (Suc i) (s\<lparr>sem_m := c\<rparr>))
          else Some (Inr (s\<lparr>sem_m := c\<rparr>)))"

declare wait.simps [code]

text \<open>\<open>void post()\<close>: throws when \<open>sem_post\<close> returns \<open>-1\<close>.\<close>

definition post :: "oscall \<Rightarrow> Semaphore \<Rightarrow> exception + Semaphore" where
  "post ev s =
     (case sem_post ev (sem_m s) of (r, errno, c) \<Rightarrow>
        (case UTIL_THROW_IF (- 1 = r) (ErrnoException errno ''Could not post to semaphore'') of
           Some e \<Rightarrow> Inl e
         | None \<Rightarrow> Inr (s\<lparr>sem_m := c\<rparr>)))"

text \<open>\<open>inline void WaitSemaphore(Semaphore &semaphore) { semaphore.wait(); }\<close>\<close>

definition WaitSemaphore :: "(nat \<Rightarrow> oscall) \<Rightarrow> Semaphore \<Rightarrow> (exception + Semaphore) option" where
  "WaitSemaphore os semaphore = wait os 0 semaphore"

text \<open>
  The destructors. The header includes \<open><mutex>\<close> and uses \<open>std::lock_guard\<close>, so it is
  compiled as C++11 or later, where a destructor declared without an exception
  specification, as \<open>~Semaphore()\<close> is on both platforms, is \<open>noexcept\<close> when the
  destructors of the members are (here those of a \<open>sem_t\<close>, or of the integers \<open>task_\<close> and
  \<open>back_\<close>). A destructor ends in one of four ways:
  \<^item> \<open>Destroyed\<close>: the resource is released and the destructor returns;
  \<^item> \<open>LoggedAbort msg\<close>: the body writes \<open>msg\<close> to \<open>std::cerr\<close> and calls \<open>abort()\<close>;
  \<^item> \<open>Terminated e\<close>: the exception \<open>e\<close> reaches the end of a \<open>noexcept\<close> destructor. It
    does not leave the destructor: \<open>std::terminate\<close> is called, whose default handler
    reports the uncaught exception on the standard error stream and calls \<open>abort()\<close>;
  \<^item> \<open>DtorThrows e\<close>: the exception \<open>e\<close> leaves the destructor and reaches the code that
    destroys the object, which only a destructor declared \<open>noexcept(false)\<close> allows.
\<close>

datatype teardown = Destroyed | LoggedAbort string | Terminated exception | DtorThrows exception

text \<open>
  A \<open>noexcept\<close> function around a body that returns (\<open>None\<close>) or throws (\<open>Some e\<close>).
\<close>

definition noexcept :: "exception option \<Rightarrow> teardown" where
  "noexcept body = (case body of Some e \<Rightarrow> Terminated e | None \<Rightarrow> Destroyed)"

text \<open>
  \<open>ErrnoException().what()\<close> renders the current \<open>errno\<close>. The class is declared in
  util/exception.hh, outside this header, so the rendering is a parameter.
\<close>

definition Semaphore_dtor :: "(int \<Rightarrow> string) \<Rightarrow> oscall \<Rightarrow> teardown" where
  "Semaphore_dtor what ev =
     (case sem_destroy ev of (r, errno) \<Rightarrow>
        if - 1 = r then LoggedAbort (''Could not destroy semaphore '' @ what errno)
        else Destroyed)"

subsection \<open>Semaphore (Apple) and the fallback WaitSemaphore\<close>

text \<open>
  \<open>MACH_CALL(call)\<close> is \<open>UTIL_THROW_IF(KERN_SUCCESS != (call), Exception, "Mach call failure")\<close>.
  The argument is the \<open>kern_return_t\<close> the Mach call returned.
\<close>

definition MACH_CALL :: "int \<Rightarrow> exception option" where
  "MACH_CALL kr = UTIL_THROW_IF (KERN_SUCCESS \<noteq> kr) (Exception ''Mach call failure'')"

text \<open>
  \<open>~Semaphore() { MACH_CALL(semaphore_destroy(task_, back_)); }\<close>, implicitly \<open>noexcept\<close>.
  The argument is the \<open>kern_return_t\<close> that \<open>semaphore_destroy\<close> returns.
\<close>

definition Semaphore_dtor_apple :: "int \<Rightarrow> teardown" where
  "Semaphore_dtor_apple kr = noexcept (MACH_CALL kr)"

text \<open>
  Without a native semaphore, \<open>Semaphore\<close> is \<open>boost::interprocess::interprocess_semaphore\<close>,
  whose \<open>wait()\<close> throws an \<open>interprocess_exception\<close> carrying the native error.
\<close>

definition interprocess_wait :: "oscall \<Rightarrow> Semaphore \<Rightarrow> (exception + Semaphore) option" where
  "interprocess_wait ev s =
     (case ev of
        Fails e \<Rightarrow> Some (Inl (interprocess_exception e))
      | Succeeds \<Rightarrow> if sem_m s = 0 then None else Some (Inr (s\<lparr>sem_m := sem_m s - 1\<rparr>)))"

definition get_native_error :: "exception \<Rightarrow> int option" where
  "get_native_error e = (case e of interprocess_exception n \<Rightarrow> Some n | _ \<Rightarrow> None)"

text \<open>
  The fallback \<open>WaitSemaphore\<close>: \<open>while (1) { try { on.wait(); break; } catch
  (interprocess_exception &e) { if (e.get_native_error() != EINTR) throw; } }\<close>.
  An exception of another class is not caught.
\<close>

partial_function (option)
  WaitSemaphore_fallback ::
    "(nat \<Rightarrow> oscall) \<Rightarrow> nat \<Rightarrow> Semaphore \<Rightarrow> (exception + Semaphore) option" where
  "WaitSemaphore_fallback os i on =
     (case interprocess_wait (os i) on of
        None \<Rightarrow> None
      | Some (Inr on') \<Rightarrow> Some (Inr on')
      | Some (Inl e) \<Rightarrow>
          (case get_native_error e of
             None \<Rightarrow> Some (Inl e)
           | Some n \<Rightarrow>
               if n \<noteq> EINTR then Some (Inl e)
               else WaitSemaphore_fallback os (Suc i) on))"

declare WaitSemaphore_fallback.simps [code]

subsection \<open>The element type\<close>

text \<open>
  \<open>T\<close> must be default constructible and have \<open>operator=\<close>. A successful assignment makes
  the destination equal to the source and a successful swap exchanges the two values.
  When the assignment throws, \<open>assign_throws dst src\<close> is the exception together with the
  value left in the destination; when the swap throws, \<open>swap_throws a b\<close> is the exception
  and the values left in both operands.
\<close>

record 'a element =
  dflt :: 'a
  assign_throws :: "'a \<Rightarrow> 'a \<Rightarrow> (exception \<times> 'a) option"
  swap_throws :: "'a \<Rightarrow> 'a \<Rightarrow> (exception \<times> 'a \<times> 'a) option"

subsection \<open>PCQueue\<close>

text \<open>
  \<open>storage_\<close> is the array, \<open>end_\<close>, \<open>produce_at_\<close> and \<open>consume_at_\<close> are pointers into it,
  held as offsets from \<open>storage_.get()\<close>.
\<close>

record 'a PCQueue =
  empty_m :: Semaphore
  used_m :: Semaphore
  storage_m :: "'a list"
  end_m :: nat
  produce_at_m :: nat
  consume_at_m :: nat

text \<open>
  What the environment does during one call of a queue operation: the outcomes of the
  \<open>sem_wait\<close> calls of its \<open>WaitSemaphore\<close> and the outcome of its one \<open>sem_post\<close>.
\<close>

record env =
  wait_calls :: "nat \<Rightarrow> oscall"
  post_call :: oscall

text \<open>
  \<open>explicit PCQueue(size_t size)\<close>. The members are initialised in declaration order;
  \<open>empty_(size)\<close> converts \<open>size\<close> (here \<open>sz\<close>) to the \<open>unsigned int\<close> parameter of \<open>Semaphore\<close>.
\<close>

definition PCQueue :: "'a element \<Rightarrow> oscall \<Rightarrow> oscall \<Rightarrow> 64 word \<Rightarrow> exception + 'a PCQueue" where
  "PCQueue T ev1 ev2 sz =
     (case Semaphore ev1 (ucast sz) of
        Inl e \<Rightarrow> Inl e
      | Inr em \<Rightarrow>
          (case Semaphore ev2 0 of
             Inl e \<Rightarrow> Inl e
           | Inr us \<Rightarrow>
               Inr \<lparr>empty_m = em, used_m = us,
                    storage_m = replicate (unat sz) (dflt T),
                    end_m = unat sz,
                    produce_at_m = 0,
                    consume_at_m = 0\<rparr>))"

text \<open>\<open>if (++produce_at_ == end_) produce_at_ = storage_.get();\<close> and its twin for \<open>consume_at_\<close>.\<close>

definition advance :: "nat \<Rightarrow> nat \<Rightarrow> nat" where
  "advance at e = (if Suc at = e then 0 else Suc at)"

text \<open>\<open>void Produce(const T &val)\<close>\<close>

definition Produce ::
  "'a element \<Rightarrow> env \<Rightarrow> 'a PCQueue \<Rightarrow> 'a \<Rightarrow> (exception \<times> 'a PCQueue + 'a PCQueue) option" where
  "Produce T E q val =
     (case WaitSemaphore (wait_calls E) (empty_m q) of
        None \<Rightarrow> None
      | Some (Inl e) \<Rightarrow> Some (Inl (e, q))
      | Some (Inr em) \<Rightarrow>
          (let q1 = q\<lparr>empty_m := em\<rparr> in
           case assign_throws T (storage_m q1 ! produce_at_m q1) val of
             Some (e, left) \<Rightarrow>
               (let q2 = q1\<lparr>storage_m := (storage_m q1)[produce_at_m q1 := left]\<rparr> in
                case post (post_call E) (empty_m q2) of
                  Inl e' \<Rightarrow> Some (Inl (e', q2))
                | Inr em' \<Rightarrow> Some (Inl (e, q2\<lparr>empty_m := em'\<rparr>)))
           | None \<Rightarrow>
               (let q2 = q1\<lparr>storage_m := (storage_m q1)[produce_at_m q1 := val],
                           produce_at_m := advance (produce_at_m q1) (end_m q1)\<rparr> in
                case post (post_call E) (used_m q2) of
                  Inl e' \<Rightarrow> Some (Inl (e', q2))
                | Inr us \<Rightarrow> Some (Inr (q2\<lparr>used_m := us\<rparr>)))))"

text \<open>\<open>void ProduceSwap(T &val)\<close>: the caller's \<open>val\<close> is returned with the queue.\<close>

definition ProduceSwap ::
  "'a element \<Rightarrow> env \<Rightarrow> 'a PCQueue \<Rightarrow> 'a \<Rightarrow>
     (exception \<times> 'a PCQueue \<times> 'a + 'a PCQueue \<times> 'a) option" where
  "ProduceSwap T E q val =
     (case WaitSemaphore (wait_calls E) (empty_m q) of
        None \<Rightarrow> None
      | Some (Inl e) \<Rightarrow> Some (Inl (e, q, val))
      | Some (Inr em) \<Rightarrow>
          (let q1 = q\<lparr>empty_m := em\<rparr>;
               slot = storage_m q1 ! produce_at_m q1 in
           case swap_throws T slot val of
             Some (e, slot', val') \<Rightarrow>
               (let q2 = q1\<lparr>storage_m := (storage_m q1)[produce_at_m q1 := slot']\<rparr> in
                case post (post_call E) (empty_m q2) of
                  Inl e' \<Rightarrow> Some (Inl (e', q2, val'))
                | Inr em' \<Rightarrow> Some (Inl (e, q2\<lparr>empty_m := em'\<rparr>, val')))
           | None \<Rightarrow>
               (let q2 = q1\<lparr>storage_m := (storage_m q1)[produce_at_m q1 := val],
                           produce_at_m := advance (produce_at_m q1) (end_m q1)\<rparr> in
                case post (post_call E) (used_m q2) of
                  Inl e' \<Rightarrow> Some (Inl (e', q2, slot))
                | Inr us \<Rightarrow> Some (Inr (q2\<lparr>used_m := us\<rparr>, slot)))))"

text \<open>\<open>T& Consume(T &out)\<close>: the caller's \<open>out\<close> is returned with the queue.\<close>

definition Consume ::
  "'a element \<Rightarrow> env \<Rightarrow> 'a PCQueue \<Rightarrow> 'a \<Rightarrow>
     (exception \<times> 'a PCQueue \<times> 'a + 'a PCQueue \<times> 'a) option" where
  "Consume T E q out =
     (case WaitSemaphore (wait_calls E) (used_m q) of
        None \<Rightarrow> None
      | Some (Inl e) \<Rightarrow> Some (Inl (e, q, out))
      | Some (Inr us) \<Rightarrow>
          (let q1 = q\<lparr>used_m := us\<rparr>;
               slot = storage_m q1 ! consume_at_m q1 in
           case assign_throws T out slot of
             Some (e, left) \<Rightarrow>
               (case post (post_call E) (used_m q1) of
                  Inl e' \<Rightarrow> Some (Inl (e', q1, left))
                | Inr us' \<Rightarrow> Some (Inl (e, q1\<lparr>used_m := us'\<rparr>, left)))
           | None \<Rightarrow>
               (let q2 = q1\<lparr>consume_at_m := advance (consume_at_m q1) (end_m q1)\<rparr> in
                case post (post_call E) (empty_m q2) of
                  Inl e' \<Rightarrow> Some (Inl (e', q2, slot))
                | Inr em \<Rightarrow> Some (Inr (q2\<lparr>empty_m := em\<rparr>, slot)))))"

text \<open>\<open>T& ConsumeSwap(T &out)\<close>\<close>

definition ConsumeSwap ::
  "'a element \<Rightarrow> env \<Rightarrow> 'a PCQueue \<Rightarrow> 'a \<Rightarrow>
     (exception \<times> 'a PCQueue \<times> 'a + 'a PCQueue \<times> 'a) option" where
  "ConsumeSwap T E q out =
     (case WaitSemaphore (wait_calls E) (used_m q) of
        None \<Rightarrow> None
      | Some (Inl e) \<Rightarrow> Some (Inl (e, q, out))
      | Some (Inr us) \<Rightarrow>
          (let q1 = q\<lparr>used_m := us\<rparr>;
               slot = storage_m q1 ! consume_at_m q1 in
           case swap_throws T out slot of
             Some (e, out', slot') \<Rightarrow>
               (let q2 = q1\<lparr>storage_m := (storage_m q1)[consume_at_m q1 := slot']\<rparr> in
                case post (post_call E) (used_m q2) of
                  Inl e' \<Rightarrow> Some (Inl (e', q2, out'))
                | Inr us' \<Rightarrow> Some (Inl (e, q2\<lparr>used_m := us'\<rparr>, out')))
           | None \<Rightarrow>
               (let q2 = q1\<lparr>storage_m := (storage_m q1)[consume_at_m q1 := out],
                           consume_at_m := advance (consume_at_m q1) (end_m q1)\<rparr> in
                case post (post_call E) (empty_m q2) of
                  Inl e' \<Rightarrow> Some (Inl (e', q2, slot))
                | Inr em \<Rightarrow> Some (Inr (q2\<lparr>empty_m := em\<rparr>, slot)))))"

text \<open>
  \<open>T Consume()\<close>: \<open>T ret; Consume(ret); return ret;\<close>
\<close>

definition Consume0 ::
  "'a element \<Rightarrow> env \<Rightarrow> 'a PCQueue \<Rightarrow> (exception \<times> 'a PCQueue + 'a PCQueue \<times> 'a) option" where
  "Consume0 T E q =
     (case Consume T E q (dflt T) of
        None \<Rightarrow> None
      | Some (Inl (e, q', ret)) \<Rightarrow> Some (Inl (e, q'))
      | Some (Inr (q', ret)) \<Rightarrow> Some (Inr (q', ret)))"

subsection \<open>Vocabulary for the properties of PCQueue\<close>

text \<open>
  An environment is calm when the semaphore calls of the operation do not fail: the
  \<open>sem_post\<close> succeeds, and the \<open>sem_wait\<close> calls are interrupted finitely often and then
  carried out. The header leaves the behaviour of the queues undefined otherwise
  (``Undefined if semaphores throw'').
\<close>

definition calm :: "env \<Rightarrow> bool" where
  "calm E \<longleftrightarrow>
     post_call E = Succeeds \<and>
     (\<exists>n. wait_calls E n = Succeeds \<and> (\<forall>i<n. wait_calls E i = Fails EINTR))"

text \<open>An environment without signals and without failures.\<close>

definition quiet :: env where
  "quiet = \<lparr>wait_calls = (\<lambda>i. Succeeds), post_call = Succeeds\<rparr>"

text \<open>An element type whose assignment and swap never throw.\<close>

definition nothrow :: "'a element \<Rightarrow> bool" where
  "nothrow T \<longleftrightarrow> (\<forall>d v. assign_throws T d v = None) \<and> (\<forall>a b. swap_throws T a b = None)"

text \<open>
  The items a queue holds, oldest first: the \<open>n\<close> slots of the ring from offset \<open>c\<close> on,
  where \<open>n\<close> is the value of \<open>used_\<close> and \<open>c\<close> is \<open>consume_at_\<close>.
\<close>

definition ring :: "'a list \<Rightarrow> nat \<Rightarrow> nat \<Rightarrow> 'a list" where
  "ring xs c n = map (\<lambda>i. xs ! ((c + i) mod length xs)) [0..<n]"

definition pending :: "'a PCQueue \<Rightarrow> 'a list" where
  "pending q = ring (storage_m q) (consume_at_m q) (sem_m (used_m q))"

text \<open>
  The representation invariant between calls: \<open>end_\<close> is the end of the array, the two
  counters together do not exceed the number of slots, \<open>produce_at_\<close> is \<open>used_\<close> slots
  ahead of \<open>consume_at_\<close>, and the cursors point into the array.
\<close>

definition consistent :: "'a PCQueue \<Rightarrow> bool" where
  "consistent q \<longleftrightarrow>
     end_m q = length (storage_m q) \<and>
     sem_m (empty_m q) + sem_m (used_m q) \<le> end_m q \<and>
     produce_at_m q = (consume_at_m q + sem_m (used_m q)) mod end_m q \<and>
     (consume_at_m q < end_m q \<or> end_m q = 0)"

text \<open>
  A thread that calls the queue: a sequence of \<open>Produce(v)\<close> and \<open>Consume()\<close> calls, each
  with the environment it meets. \<open>run\<close> performs them in order and collects the values the
  \<open>Consume\<close> calls return; it stops at the first call that throws, and has no value when a
  call does not return.
\<close>

datatype 'a call = ProduceCall env 'a | ConsumeCall env

fun run ::
  "'a element \<Rightarrow> 'a PCQueue \<Rightarrow> 'a call list \<Rightarrow>
     (exception \<times> 'a PCQueue + 'a PCQueue \<times> 'a list) option" where
  "run T q [] = Some (Inr (q, []))"
| "run T q (ProduceCall E v # cs) =
     (case Produce T E q v of
        None \<Rightarrow> None
      | Some (Inl x) \<Rightarrow> Some (Inl x)
      | Some (Inr q') \<Rightarrow> run T q' cs)"
| "run T q (ConsumeCall E # cs) =
     (case Consume0 T E q of
        None \<Rightarrow> None
      | Some (Inl x) \<Rightarrow> Some (Inl x)
      | Some (Inr (q', v)) \<Rightarrow>
          (case run T q' cs of
             None \<Rightarrow> None
           | Some (Inl x) \<Rightarrow> Some (Inl x)
           | Some (Inr (q'', vs)) \<Rightarrow> Some (Inr (q'', v # vs))))"

fun call_env :: "'a call \<Rightarrow> env" where
  "call_env (ProduceCall E v) = E"
| "call_env (ConsumeCall E) = E"

text \<open>The values a sequence of calls produces, in order, and the number of its \<open>Consume\<close> calls.\<close>

fun produced :: "'a call list \<Rightarrow> 'a list" where
  "produced [] = []"
| "produced (ProduceCall E v # cs) = v # produced cs"
| "produced (ConsumeCall E # cs) = produced cs"

fun consumes :: "'a call list \<Rightarrow> nat" where
  "consumes [] = 0"
| "consumes (ProduceCall E v # cs) = consumes cs"
| "consumes (ConsumeCall E # cs) = Suc (consumes cs)"

text \<open>
  A sequence of calls keeps within \<open>k\<close> pending items when, after each of its prefixes,
  no more items have been consumed than produced, and at most \<open>k\<close> of the produced items
  have not been consumed.
\<close>

definition within :: "nat \<Rightarrow> 'a call list \<Rightarrow> bool" where
  "within k cs \<longleftrightarrow>
     (\<forall>n\<le>length cs.
        consumes (take n cs) \<le> length (produced (take n cs)) \<and>
        length (produced (take n cs)) \<le> consumes (take n cs) + k)"

text \<open>
  The same condition, computed along the calls from the numbers of free and filled
  slots: every \<open>Produce\<close> finds a free slot and every \<open>Consume\<close> a filled one.
\<close>

fun admits :: "nat \<Rightarrow> nat \<Rightarrow> 'a call list \<Rightarrow> bool" where
  "admits free filled [] = True"
| "admits free filled (ProduceCall E v # cs) = (0 < free \<and> admits (free - 1) (Suc filled) cs)"
| "admits free filled (ConsumeCall E # cs) = (0 < filled \<and> admits (Suc free) (filled - 1) cs)"

subsection \<open>Element types and call sequences used as examples\<close>

text \<open>Numbers: assignment and swap never throw.\<close>

definition nat_element :: "nat element" where
  "nat_element = \<lparr>dflt = 0, assign_throws = (\<lambda>d v. None), swap_throws = (\<lambda>a b. None)\<rparr>"

text \<open>
  A struct of two members whose \<open>operator=\<close> assigns the members in turn. The second
  member can take a value up to the one it holds without allocating; assigning a larger
  one throws, after the first member has been assigned. The type has no swap of its own,
  so \<open>std::swap(a, b)\<close> is \<open>T tmp(a); a = b; b = tmp;\<close>.
\<close>

definition memberwise :: "(nat \<times> nat) element" where
  "memberwise =
     \<lparr>dflt = (0, 1),
      assign_throws =
        (\<lambda>d v. if snd d < snd v then Some (ElementError ''bad_alloc'', (fst v, snd d)) else None),
      swap_throws =
        (\<lambda>a b. if snd a < snd b then Some (ElementError ''bad_alloc'', (fst b, snd a), b)
               else if snd b < snd a then Some (ElementError ''bad_alloc'', b, (fst a, snd b))
               else None)\<rparr>"

text \<open>
  Three states of a queue of two such structs: fresh, after a \<open>Produce((7, 3))\<close> that
  threw, and holding the one item \<open>(5, 1)\<close>.
\<close>

definition memberwise_fresh :: "(nat \<times> nat) PCQueue" where
  "memberwise_fresh =
     \<lparr>empty_m = \<lparr>sem_m = 2\<rparr>, used_m = \<lparr>sem_m = 0\<rparr>, storage_m = [(0, 1), (0, 1)],
      end_m = 2, produce_at_m = 0, consume_at_m = 0\<rparr>"

definition memberwise_after :: "(nat \<times> nat) PCQueue" where
  "memberwise_after =
     \<lparr>empty_m = \<lparr>sem_m = 2\<rparr>, used_m = \<lparr>sem_m = 0\<rparr>, storage_m = [(7, 1), (0, 1)],
      end_m = 2, produce_at_m = 0, consume_at_m = 0\<rparr>"

definition memberwise_one :: "(nat \<times> nat) PCQueue" where
  "memberwise_one =
     \<lparr>empty_m = \<lparr>sem_m = 1\<rparr>, used_m = \<lparr>sem_m = 1\<rparr>, storage_m = [(5, 1), (0, 1)],
      end_m = 2, produce_at_m = 1, consume_at_m = 0\<rparr>"

text \<open>An environment in which the wait is interrupted twice before it is carried out.\<close>

definition twice_interrupted :: "oscall \<Rightarrow> nat \<Rightarrow> oscall" where
  "twice_interrupted final i = (if i < 2 then Fails EINTR else final)"

definition stormy :: env where
  "stormy = \<lparr>wait_calls = twice_interrupted Succeeds, post_call = Succeeds\<rparr>"

text \<open>Three items through a queue of two slots.\<close>

definition three_through_two :: "nat call list" where
  "three_through_two =
     [ProduceCall quiet 1, ProduceCall stormy 2, ConsumeCall quiet,
      ProduceCall quiet 3, ConsumeCall stormy, ConsumeCall quiet]"

text \<open>The queue with one slot of its array replaced.\<close>

definition with_slot :: "'a PCQueue \<Rightarrow> nat \<Rightarrow> 'a \<Rightarrow> 'a PCQueue" where
  "with_slot q at x = q\<lparr>storage_m := (storage_m q)[at := x]\<rparr>"

text \<open>A queue of two numbers: fresh, and after \<open>Produce(1)\<close> and \<open>Produce(2)\<close>.\<close>

definition nat_fresh2 :: "nat PCQueue" where
  "nat_fresh2 =
     \<lparr>empty_m = \<lparr>sem_m = 2\<rparr>, used_m = \<lparr>sem_m = 0\<rparr>, storage_m = [0, 0],
      end_m = 2, produce_at_m = 0, consume_at_m = 0\<rparr>"

definition nat_full2 :: "nat PCQueue" where
  "nat_full2 =
     \<lparr>empty_m = \<lparr>sem_m = 0\<rparr>, used_m = \<lparr>sem_m = 2\<rparr>, storage_m = [1, 2],
      end_m = 2, produce_at_m = 0, consume_at_m = 0\<rparr>"

definition two_produces :: "nat call list" where
  "two_produces = [ProduceCall quiet 1, ProduceCall stormy 2]"

text \<open>
  A queue of numbers constructed with capacity \<open>2 ^ 32 + 2\<close>, and a thread that produces
  three items before it consumes one.
\<close>

definition big_queue :: "nat PCQueue" where
  "big_queue =
     \<lparr>empty_m = \<lparr>sem_m = 2\<rparr>, used_m = \<lparr>sem_m = 0\<rparr>,
      storage_m = replicate 4294967298 0, end_m = 4294967298,
      produce_at_m = 0, consume_at_m = 0\<rparr>"

definition three_pending :: "nat call list" where
  "three_pending =
     [ProduceCall quiet 1, ProduceCall quiet 2, ProduceCall quiet 3, ConsumeCall quiet]"

subsection \<open>UnboundedSingleQueue\<close>

text \<open>
  \<open>template <class T> struct UnboundedPage { UnboundedPage *next; T entries[1023]; }\<close>.
  A pointer to a page is its address in the free store, \<open>nullptr\<close> is \<open>None\<close>.
\<close>

record 'a UnboundedPage =
  "next" :: "nat option"
  entries :: "'a list"

definition UnboundedPage :: "'a element \<Rightarrow> 'a UnboundedPage" where
  "UnboundedPage T = \<lparr>next = None, entries = replicate 1023 (dflt T)\<rparr>"

text \<open>\<open>sizeof(to->entries) / sizeof(T)\<close>, a constant of the page type.\<close>

definition entries_count :: nat where
  "entries_count = 1023"

text \<open>
  The free store holds the pages. \<open>new\<close> hands out the addresses \<open>0, 1, 2, \<dots>\<close> in turn and
  never reuses one, so \<open>news\<close> is the number of pages allocated so far; \<open>delete\<close> removes
  the page.
\<close>

record 'a store =
  pages :: "nat \<Rightarrow> 'a UnboundedPage option"
  news :: nat

definition new_UnboundedPage :: "'a element \<Rightarrow> 'a store \<Rightarrow> nat \<times> 'a store" where
  "new_UnboundedPage T h =
     (news h, h\<lparr>pages := (pages h)(news h \<mapsto> UnboundedPage T), news := Suc (news h)\<rparr>)"

definition delete_page :: "nat \<Rightarrow> 'a store \<Rightarrow> 'a store" where
  "delete_page a h = h\<lparr>pages := (pages h)(a := None)\<rparr>"

text \<open>
  The queue. \<open>filling_\<close> is a raw pointer, \<open>reading_\<close> a \<open>unique_ptr\<close>; the four cursors are
  pointers to entries, held as the address of the page and the offset into its \<open>entries\<close>.
\<close>

record UnboundedSingleQueue =
  valid_m :: Semaphore
  filling_m :: nat
  reading_m :: "nat option"
  filling_current_m :: "nat \<times> nat"
  filling_end_m :: "nat \<times> nat"
  reading_current_m :: "nat \<times> nat"
  reading_end_m :: "nat \<times> nat"

text \<open>\<open>void SetFilling(UnboundedPage<T> *to)\<close>\<close>

definition SetFilling :: "UnboundedSingleQueue \<Rightarrow> nat \<Rightarrow> UnboundedSingleQueue" where
  "SetFilling q to =
     q\<lparr>filling_m := to,
       filling_current_m := (to, 0),
       filling_end_m := (to, 0 + entries_count)\<rparr>"

text \<open>
  \<open>void SetReading(UnboundedPage<T> *to)\<close>. \<open>reading_.reset(to)\<close> stores \<open>to\<close> and then
  deletes the page \<open>reading_\<close> owned before, if any.
\<close>

definition SetReading ::
  "'a store \<Rightarrow> UnboundedSingleQueue \<Rightarrow> nat \<Rightarrow> 'a store \<times> UnboundedSingleQueue" where
  "SetReading h q to =
     ((case reading_m q of None \<Rightarrow> h | Some old \<Rightarrow> delete_page old h),
      q\<lparr>reading_m := Some to,
        reading_current_m := (to, 0),
        reading_end_m := (to, 0 + entries_count)\<rparr>)"

text \<open>
  \<open>UnboundedSingleQueue() : valid_(0) { SetFilling(new UnboundedPage<T>()); SetReading(filling_); }\<close>
  The pointer members are not initialised before the body runs; \<open>reading_\<close> starts empty.
\<close>

definition UnboundedSingleQueue ::
  "'a element \<Rightarrow> oscall \<Rightarrow> 'a store \<Rightarrow> exception + 'a store \<times> UnboundedSingleQueue" where
  "UnboundedSingleQueue T ev h =
     (case Semaphore ev 0 of
        Inl e \<Rightarrow> Inl e
      | Inr v \<Rightarrow>
          (let q0 = \<lparr>valid_m = v, filling_m = 0, reading_m = None,
                     filling_current_m = (0, 0), filling_end_m = (0, 0),
                     reading_current_m = (0, 0), reading_end_m = (0, 0)\<rparr>;
               (a, h1) = new_UnboundedPage T h;
               q1 = SetFilling q0 a
           in Inr (SetReading h1 q1 (filling_m q1))))"

text \<open>
  \<open>void Produce(const T &val)\<close>. It calls no wait, so it always returns or throws. In
  \<open>*(filling_current_++) = val\<close> the cursor is advanced before \<open>operator=\<close> runs.
\<close>

definition Produce_unbounded ::
  "'a element \<Rightarrow> env \<Rightarrow> 'a store \<Rightarrow> UnboundedSingleQueue \<Rightarrow> 'a \<Rightarrow>
     exception \<times> 'a store \<times> UnboundedSingleQueue + 'a store \<times> UnboundedSingleQueue" where
  "Produce_unbounded T E h q val =
     (case
        (if filling_current_m q = filling_end_m q then
           (let (nxt, h1) = new_UnboundedPage T h in
            case pages h1 (filling_m q) of
              None \<Rightarrow> None
            | Some pg \<Rightarrow>
                Some (h1\<lparr>pages := (pages h1)(filling_m q \<mapsto> pg\<lparr>next := Some nxt\<rparr>)\<rparr>,
                      SetFilling q nxt))
         else Some (h, q))
      of
        None \<Rightarrow> Inl (UndefinedBehaviour ''filling_->next'', h, q)
      | Some (h2, q2) \<Rightarrow>
          (let (p, i) = filling_current_m q2;
               q3 = q2\<lparr>filling_current_m := (p, Suc i)\<rparr> in
           case pages h2 p of
             None \<Rightarrow> Inl (UndefinedBehaviour ''*filling_current_'', h2, q3)
           | Some pg \<Rightarrow>
               if length (entries pg) \<le> i then Inl (UndefinedBehaviour ''*filling_current_'', h2, q3)
               else
                 (case assign_throws T (entries pg ! i) val of
                    Some (e, left) \<Rightarrow>
                      Inl (e, h2\<lparr>pages := (pages h2)(p \<mapsto> pg\<lparr>entries := (entries pg)[i := left]\<rparr>)\<rparr>, q3)
                  | None \<Rightarrow>
                      (let h3 = h2\<lparr>pages := (pages h2)(p \<mapsto> pg\<lparr>entries := (entries pg)[i := val]\<rparr>)\<rparr> in
                       case post (post_call E) (valid_m q3) of
                         Inl e \<Rightarrow> Inl (e, h3, q3)
                       | Inr v \<Rightarrow> Inr (h3, q3\<lparr>valid_m := v\<rparr>)))))"

text \<open>\<open>T& Consume(T &out)\<close>: the caller's \<open>out\<close> is returned with the store and the queue.\<close>

definition Consume_unbounded ::
  "'a element \<Rightarrow> env \<Rightarrow> 'a store \<Rightarrow> UnboundedSingleQueue \<Rightarrow> 'a \<Rightarrow>
     (exception \<times> 'a store \<times> UnboundedSingleQueue \<times> 'a + 'a store \<times> UnboundedSingleQueue \<times> 'a) option" where
  "Consume_unbounded T E h q out =
     (case WaitSemaphore (wait_calls E) (valid_m q) of
        None \<Rightarrow> None
      | Some (Inl e) \<Rightarrow> Some (Inl (e, h, q, out))
      | Some (Inr v) \<Rightarrow>
          (let q1 = q\<lparr>valid_m := v\<rparr> in
           case
             (if reading_current_m q1 = reading_end_m q1 then
                (case reading_m q1 of
                   None \<Rightarrow> None
                 | Some r \<Rightarrow>
                     (case pages h r of
                        None \<Rightarrow> None
                      | Some pg \<Rightarrow>
                          (case next pg of
                             None \<Rightarrow> None
                           | Some to \<Rightarrow> Some (SetReading h q1 to))))
              else Some (h, q1))
           of
             None \<Rightarrow> Some (Inl (UndefinedBehaviour ''reading_->next'', h, q1, out))
           | Some (h2, q2) \<Rightarrow>
               (let (p, i) = reading_current_m q2;
                    q3 = q2\<lparr>reading_current_m := (p, Suc i)\<rparr> in
                case pages h2 p of
                  None \<Rightarrow> Some (Inl (UndefinedBehaviour ''*reading_current_'', h2, q3, out))
                | Some pg \<Rightarrow>
                    if length (entries pg) \<le> i
                    then Some (Inl (UndefinedBehaviour ''*reading_current_'', h2, q3, out))
                    else
                      (case assign_throws T out (entries pg ! i) of
                         Some (e, left) \<Rightarrow> Some (Inl (e, h2, q3, left))
                       | None \<Rightarrow> Some (Inr (h2, q3, entries pg ! i))))))"

text \<open>
  A thread calling the unbounded queue, as \<open>run\<close> for the bounded one. A \<open>Consume\<close> call
  passes a default-constructed \<open>out\<close>.
\<close>

fun run_unbounded ::
  "'a element \<Rightarrow> 'a store \<Rightarrow> UnboundedSingleQueue \<Rightarrow> 'a call list \<Rightarrow>
     (exception \<times> 'a store \<times> UnboundedSingleQueue + 'a store \<times> UnboundedSingleQueue \<times> 'a list) option" where
  "run_unbounded T h q [] = Some (Inr (h, q, []))"
| "run_unbounded T h q (ProduceCall E v # cs) =
     (case Produce_unbounded T E h q v of
        Inl x \<Rightarrow> Some (Inl x)
      | Inr (h', q') \<Rightarrow> run_unbounded T h' q' cs)"
| "run_unbounded T h q (ConsumeCall E # cs) =
     (case Consume_unbounded T E h q (dflt T) of
        None \<Rightarrow> None
      | Some (Inl (e, h', q', out)) \<Rightarrow> Some (Inl (e, h', q'))
      | Some (Inr (h', q', v)) \<Rightarrow>
          (case run_unbounded T h' q' cs of
             None \<Rightarrow> None
           | Some (Inl x) \<Rightarrow> Some (Inl x)
           | Some (Inr (h'', q'', vs)) \<Rightarrow> Some (Inr (h'', q'', v # vs))))"

text \<open>
  The slots of the pages from the reading page \<open>r\<close> to the filling page, in order; the
  representation invariant; and the items the queue holds, oldest first. The pages of
  the chain are those allocated since the reading page: \<open>r, r + 1, \<dots>, news h - 1\<close>.
\<close>

definition page_entries :: "'a store \<Rightarrow> nat \<Rightarrow> 'a list" where
  "page_entries h a = (case pages h a of None \<Rightarrow> [] | Some pg \<Rightarrow> entries pg)"

definition slots :: "'a store \<Rightarrow> nat \<Rightarrow> 'a list" where
  "slots h r = concat (map (page_entries h) [r..<news h])"

definition written :: "'a store \<Rightarrow> UnboundedSingleQueue \<Rightarrow> nat" where
  "written h q =
     entries_count * (filling_m q - the (reading_m q)) + snd (filling_current_m q)"

definition chained :: "'a store \<Rightarrow> UnboundedSingleQueue \<Rightarrow> bool" where
  "chained h q \<longleftrightarrow>
     (\<exists>r. reading_m q = Some r \<and> r < news h \<and> filling_m q = news h - 1 \<and>
        fst (reading_current_m q) = r \<and> reading_end_m q = (r, entries_count) \<and>
        fst (filling_current_m q) = filling_m q \<and>
        filling_end_m q = (filling_m q, entries_count) \<and>
        snd (reading_current_m q) \<le> entries_count \<and>
        snd (filling_current_m q) \<le> entries_count \<and>
        (\<forall>a. r \<le> a \<and> a < news h \<longrightarrow>
           (\<exists>pg. pages h a = Some pg \<and> length (entries pg) = entries_count \<and>
              next pg = (if Suc a < news h then Some (Suc a) else None))) \<and>
        snd (reading_current_m q) + sem_m (valid_m q) = written h q)"

definition pending_unbounded :: "'a store \<Rightarrow> UnboundedSingleQueue \<Rightarrow> 'a list" where
  "pending_unbounded h q =
     take (sem_m (valid_m q)) (drop (snd (reading_current_m q)) (slots h (the (reading_m q))))"

definition empty_store :: "'a store" where
  "empty_store = \<lparr>pages = (\<lambda>a. None), news = 0\<rparr>"

text \<open>
  A sequence of calls is in order when no \<open>Consume\<close> precedes its matching \<open>Produce\<close>:
  after each prefix no more items have been consumed than produced. \<open>admits_unbounded\<close>
  computes the same along the calls, from the number of items available.
\<close>

definition in_order :: "'a call list \<Rightarrow> bool" where
  "in_order cs \<longleftrightarrow> (\<forall>n\<le>length cs. consumes (take n cs) \<le> length (produced (take n cs)))"

fun admits_unbounded :: "nat \<Rightarrow> 'a call list \<Rightarrow> bool" where
  "admits_unbounded filled [] = True"
| "admits_unbounded filled (ProduceCall E v # cs) = admits_unbounded (Suc filled) cs"
| "admits_unbounded filled (ConsumeCall E # cs) = (0 < filled \<and> admits_unbounded (filled - 1) cs)"

text \<open>
  A fresh unbounded queue of numbers in an empty store, a producer of three items and a
  consumer of three, a mixed sequence of calls, and a producer that fills one page.
\<close>

definition nat_store :: "nat store" where
  "nat_store = \<lparr>pages = (\<lambda>a. None)(0 \<mapsto> UnboundedPage nat_element), news = 1\<rparr>"

definition nat_unbounded :: UnboundedSingleQueue where
  "nat_unbounded =
     \<lparr>valid_m = \<lparr>sem_m = 0\<rparr>, filling_m = 0, reading_m = Some 0,
      filling_current_m = (0, 0), filling_end_m = (0, entries_count),
      reading_current_m = (0, 0), reading_end_m = (0, entries_count)\<rparr>"

definition three_producers :: "nat call list" where
  "three_producers = [ProduceCall quiet 1, ProduceCall stormy 2, ProduceCall quiet 3]"

definition three_consumers :: "nat call list" where
  "three_consumers = [ConsumeCall quiet, ConsumeCall stormy, ConsumeCall quiet]"

definition two_then_one :: "nat call list" where
  "two_then_one = [ProduceCall quiet 1, ProduceCall stormy 2, ConsumeCall quiet]"

definition page_of_sevens :: "nat call list" where
  "page_of_sevens = replicate 1023 (ProduceCall quiet 7)"

subsection \<open>PCQueue called from several threads\<close>

text \<open>
  The four operations of \<open>PCQueue\<close> have the same control flow. A thread inside one of them
  is at one of these points; the steps between them are atomic. \<open>Copy\<close> stands for
  \<open>Produce\<close> and \<open>Consume\<close>, \<open>Swap\<close> for \<open>ProduceSwap\<close> and \<open>ConsumeSwap\<close>, and the value is the
  caller's \<open>val\<close> or \<open>out\<close>.
  \<^item> \<open>P_wait\<close>: at \<open>WaitSemaphore(empty_)\<close>;
  \<^item> \<open>P_lock\<close>: the wait has returned, at the \<open>lock_guard\<close> on \<open>produce_at_mutex_\<close>;
  \<^item> \<open>P_transfer\<close>: holding the mutex, at the assignment or swap into \<open>*produce_at_\<close>;
  \<^item> \<open>P_catch\<close>: in the \<open>catch (...)\<close> block, at \<open>empty_.post()\<close>;
  \<^item> \<open>P_rethrow\<close>: at \<open>throw;\<close>, which leaves the block and releases the mutex;
  \<^item> \<open>P_advance\<close>: at \<open>if (++produce_at_ == end_) ...\<close>, after which the block ends and
    the mutex is released;
  \<^item> \<open>P_post\<close>: at \<open>used_.post()\<close>;
  and likewise \<open>C_wait\<close> to \<open>C_post\<close> for the consumer, with \<open>used_\<close>, \<open>consume_at_mutex_\<close>,
  \<open>consume_at_\<close> and \<open>empty_\<close>. The values handed back to the caller are not kept.
\<close>

datatype transfer = Copy | Swap

datatype 'a pc =
    Idle
  | P_wait transfer 'a
  | P_lock transfer 'a
  | P_transfer transfer 'a
  | P_catch exception
  | P_rethrow exception
  | P_advance
  | P_post
  | C_wait transfer 'a
  | C_lock transfer 'a
  | C_transfer transfer 'a
  | C_catch exception
  | C_rethrow exception
  | C_advance
  | C_post

record 'a system =
  queue :: "'a PCQueue"
  produce_at_mutex_m :: bool
  consume_at_mutex_m :: bool
  threads :: "'a pc list"

text \<open>
  What the transfer of a producer or a consumer does to the slot: the exception if it
  throws, and the value the slot holds afterwards.
\<close>

definition produce_transfer :: "'a element \<Rightarrow> transfer \<Rightarrow> 'a \<Rightarrow> 'a \<Rightarrow> exception option \<times> 'a" where
  "produce_transfer T k slot val =
     (case k of
        Copy \<Rightarrow> (case assign_throws T slot val of
                  Some (e, left) \<Rightarrow> (Some e, left) | None \<Rightarrow> (None, val))
      | Swap \<Rightarrow> (case swap_throws T slot val of
                  Some (e, left, val') \<Rightarrow> (Some e, left) | None \<Rightarrow> (None, val)))"

definition consume_transfer :: "'a element \<Rightarrow> transfer \<Rightarrow> 'a \<Rightarrow> 'a \<Rightarrow> exception option \<times> 'a" where
  "consume_transfer T k out slot =
     (case k of
        Copy \<Rightarrow> (case assign_throws T out slot of
                  Some (e, out') \<Rightarrow> (Some e, slot) | None \<Rightarrow> (None, slot))
      | Swap \<Rightarrow> (case swap_throws T out slot of
                  Some (e, out', left) \<Rightarrow> (Some e, left) | None \<Rightarrow> (None, out)))"

text \<open>
  The next step of thread \<open>i\<close>, if it can take one. A thread at a wait can step when the
  counter is positive, a thread at a \<open>lock_guard\<close> when the mutex is free; an idle thread
  has no step. The semaphore calls meet the environment \<open>quiet\<close>.
\<close>

definition move :: "'a element \<Rightarrow> 'a system \<Rightarrow> nat \<Rightarrow> 'a system option" where
  "move T s i =
     (if length (threads s) \<le> i then None
      else
        (let q = queue s; become = (\<lambda>p. (threads s)[i := p]) in
         case threads s ! i of
           Idle \<Rightarrow> None
         | P_wait k v \<Rightarrow>
             (case WaitSemaphore (wait_calls quiet) (empty_m q) of
                Some (Inr em) \<Rightarrow> Some (s\<lparr>queue := q\<lparr>empty_m := em\<rparr>, threads := become (P_lock k v)\<rparr>)
              | _ \<Rightarrow> None)
         | P_lock k v \<Rightarrow>
             if produce_at_mutex_m s then None
             else Some (s\<lparr>produce_at_mutex_m := True, threads := become (P_transfer k v)\<rparr>)
         | P_transfer k v \<Rightarrow>
             (case produce_transfer T k (storage_m q ! produce_at_m q) v of
                (Some e, left) \<Rightarrow>
                  Some (s\<lparr>queue := with_slot q (produce_at_m q) left, threads := become (P_catch e)\<rparr>)
              | (None, left) \<Rightarrow>
                  Some (s\<lparr>queue := with_slot q (produce_at_m q) left, threads := become P_advance\<rparr>))
         | P_catch e \<Rightarrow>
             (case post (post_call quiet) (empty_m q) of
                Inr em \<Rightarrow> Some (s\<lparr>queue := q\<lparr>empty_m := em\<rparr>, threads := become (P_rethrow e)\<rparr>)
              | Inl e' \<Rightarrow> None)
         | P_rethrow e \<Rightarrow> Some (s\<lparr>produce_at_mutex_m := False, threads := become Idle\<rparr>)
         | P_advance \<Rightarrow>
             Some (s\<lparr>queue := q\<lparr>produce_at_m := advance (produce_at_m q) (end_m q)\<rparr>,
                     produce_at_mutex_m := False, threads := become P_post\<rparr>)
         | P_post \<Rightarrow>
             (case post (post_call quiet) (used_m q) of
                Inr us \<Rightarrow> Some (s\<lparr>queue := q\<lparr>used_m := us\<rparr>, threads := become Idle\<rparr>)
              | Inl e' \<Rightarrow> None)
         | C_wait k v \<Rightarrow>
             (case WaitSemaphore (wait_calls quiet) (used_m q) of
                Some (Inr us) \<Rightarrow> Some (s\<lparr>queue := q\<lparr>used_m := us\<rparr>, threads := become (C_lock k v)\<rparr>)
              | _ \<Rightarrow> None)
         | C_lock k v \<Rightarrow>
             if consume_at_mutex_m s then None
             else Some (s\<lparr>consume_at_mutex_m := True, threads := become (C_transfer k v)\<rparr>)
         | C_transfer k v \<Rightarrow>
             (case consume_transfer T k v (storage_m q ! consume_at_m q) of
                (Some e, left) \<Rightarrow>
                  Some (s\<lparr>queue := with_slot q (consume_at_m q) left, threads := become (C_catch e)\<rparr>)
              | (None, left) \<Rightarrow>
                  Some (s\<lparr>queue := with_slot q (consume_at_m q) left, threads := become C_advance\<rparr>))
         | C_catch e \<Rightarrow>
             (case post (post_call quiet) (used_m q) of
                Inr us \<Rightarrow> Some (s\<lparr>queue := q\<lparr>used_m := us\<rparr>, threads := become (C_rethrow e)\<rparr>)
              | Inl e' \<Rightarrow> None)
         | C_rethrow e \<Rightarrow> Some (s\<lparr>consume_at_mutex_m := False, threads := become Idle\<rparr>)
         | C_advance \<Rightarrow>
             Some (s\<lparr>queue := q\<lparr>consume_at_m := advance (consume_at_m q) (end_m q)\<rparr>,
                     consume_at_mutex_m := False, threads := become C_post\<rparr>)
         | C_post \<Rightarrow>
             (case post (post_call quiet) (empty_m q) of
                Inr em \<Rightarrow> Some (s\<lparr>queue := q\<lparr>empty_m := em\<rparr>, threads := become Idle\<rparr>)
              | Inl e' \<Rightarrow> None)))"

text \<open>
  A schedule is a sequence of events: an idle thread calls an operation, or a thread
  takes its next step. \<open>exec\<close> runs a schedule; it has no value when an event cannot
  happen.
\<close>

datatype 'a event =
    CallProduce nat transfer 'a
  | CallConsume nat transfer 'a
  | Step nat

definition fire :: "'a element \<Rightarrow> 'a system \<Rightarrow> 'a event \<Rightarrow> 'a system option" where
  "fire T s ev =
     (case ev of
        CallProduce i k v \<Rightarrow>
          if i < length (threads s) \<and> threads s ! i = Idle
          then Some (s\<lparr>threads := (threads s)[i := P_wait k v]\<rparr>) else None
      | CallConsume i k v \<Rightarrow>
          if i < length (threads s) \<and> threads s ! i = Idle
          then Some (s\<lparr>threads := (threads s)[i := C_wait k v]\<rparr>) else None
      | Step i \<Rightarrow> move T s i)"

fun exec :: "'a element \<Rightarrow> 'a system \<Rightarrow> 'a event list \<Rightarrow> 'a system option" where
  "exec T s [] = Some s"
| "exec T s (ev # evs) = (case fire T s ev of None \<Rightarrow> None | Some s' \<Rightarrow> exec T s' evs)"

text \<open>\<open>n\<close> idle threads around a queue.\<close>

definition idle_system :: "'a PCQueue \<Rightarrow> nat \<Rightarrow> 'a system" where
  "idle_system q n =
     \<lparr>queue = q, produce_at_mutex_m = False, consume_at_mutex_m = False,
      threads = replicate n Idle\<rparr>"

text \<open>
  A thread holds a reserved slot from the return of its wait until it posts: a producer
  a free slot, a consumer a filled one. \<open>in_flight\<close> counts these threads.
\<close>

fun holds_slot :: "'a pc \<Rightarrow> bool" where
  "holds_slot Idle = False"
| "holds_slot (P_wait k v) = False"
| "holds_slot (P_rethrow e) = False"
| "holds_slot (C_wait k v) = False"
| "holds_slot (C_rethrow e) = False"
| "holds_slot p = True"

definition in_flight :: "'a system \<Rightarrow> nat" where
  "in_flight s = length (filter holds_slot (threads s))"

text \<open>
  Two threads and a queue of two numbers: both call \<open>Produce\<close> and both return from the
  wait, so that each holds a reserved slot. And a queue constructed with capacity
  \<open>2 ^ 32\<close>.
\<close>

definition both_reserved :: "nat event list" where
  "both_reserved = [CallProduce 0 Copy 5, CallProduce 1 Copy 6, Step 0, Step 1]"

definition huge_queue :: "nat PCQueue" where
  "huge_queue =
     \<lparr>empty_m = \<lparr>sem_m = 0\<rparr>, used_m = \<lparr>sem_m = 0\<rparr>,
      storage_m = replicate 4294967296 0, end_m = 4294967296,
      produce_at_m = 0, consume_at_m = 0\<rparr>"

text \<open>The schedules in which one thread runs one operation from call to return.\<close>

definition produce_alone :: "transfer \<Rightarrow> 'a \<Rightarrow> 'a event list" where
  "produce_alone k v = [CallProduce 0 k v, Step 0, Step 0, Step 0, Step 0, Step 0]"

definition consume_alone :: "transfer \<Rightarrow> 'a \<Rightarrow> 'a event list" where
  "consume_alone k v = [CallConsume 0 k v, Step 0, Step 0, Step 0, Step 0, Step 0]"

text \<open>
  A queue of two numbers that was full: a consumer has taken the first item and is about
  to post \<open>empty_\<close>, and two producers are at their wait.
\<close>

definition two_waiting :: "nat system" where
  "two_waiting =
     \<lparr>queue = \<lparr>empty_m = \<lparr>sem_m = 0\<rparr>, used_m = \<lparr>sem_m = 1\<rparr>, storage_m = [1, 2],
               end_m = 2, produce_at_m = 0, consume_at_m = 1\<rparr>,
      produce_at_mutex_m = False, consume_at_mutex_m = False,
      threads = [P_wait Copy 3, P_wait Copy 4, C_post]\<rparr>"

text \<open>
  The order of the items across threads. An item is enqueued by the step that assigns or
  swaps it into the slot, and dequeued by the step that assigns or swaps it out; both
  happen under the mutex of their role. \<open>logged\<close> runs a schedule and records the items
  enqueued and the items dequeued, each in the order of these steps.
\<close>

definition enqueued :: "'a element \<Rightarrow> 'a system \<Rightarrow> 'a event \<Rightarrow> 'a list" where
  "enqueued T s ev =
     (case ev of
        Step i \<Rightarrow>
          if i < length (threads s) then
            (case threads s ! i of
               P_transfer k v \<Rightarrow>
                 (case produce_transfer T k (storage_m (queue s) ! produce_at_m (queue s)) v of
                    (None, x) \<Rightarrow> [x]
                  | (Some e, x) \<Rightarrow> [])
             | _ \<Rightarrow> [])
          else []
      | _ \<Rightarrow> [])"

definition dequeued :: "'a element \<Rightarrow> 'a system \<Rightarrow> 'a event \<Rightarrow> 'a list" where
  "dequeued T s ev =
     (case ev of
        Step i \<Rightarrow>
          if i < length (threads s) then
            (case threads s ! i of
               C_transfer k out \<Rightarrow>
                 (case consume_transfer T k out (storage_m (queue s) ! consume_at_m (queue s)) of
                    (None, x) \<Rightarrow> [storage_m (queue s) ! consume_at_m (queue s)]
                  | (Some e, x) \<Rightarrow> [])
             | _ \<Rightarrow> [])
          else []
      | _ \<Rightarrow> [])"

fun logged ::
  "'a element \<Rightarrow> 'a system \<times> 'a list \<times> 'a list \<Rightarrow> 'a event list \<Rightarrow>
     ('a system \<times> 'a list \<times> 'a list) option" where
  "logged T c [] = Some c"
| "logged T (s, enq, deq) (ev # evs) =
     (case fire T s ev of
        None \<Rightarrow> None
      | Some s' \<Rightarrow> logged T (s', enq @ enqueued T s ev, deq @ dequeued T s ev) evs)"

text \<open>
  The number of threads at given points, and the invariant that relates the counters,
  the cursors, the mutexes and the slots to the two records. With \<open>pa\<close> threads at
  \<open>P_advance\<close> and \<open>ca\<close> at \<open>C_advance\<close> (at most one each), \<open>produce_at_\<close> is
  \<open>length enq - pa\<close> slots from the start of the array, modulo its size, \<open>consume_at_\<close> is
  \<open>length deq - ca\<close>, and the slots in between hold the items enqueued and not yet
  dequeued.
\<close>

definition count_at :: "('a pc \<Rightarrow> bool) \<Rightarrow> 'a system \<Rightarrow> nat" where
  "count_at P s = length (filter P (threads s))"

fun is_P_lock :: "'a pc \<Rightarrow> bool" where
  "is_P_lock (P_lock k v) = True" | "is_P_lock p = False"

fun is_P_transfer :: "'a pc \<Rightarrow> bool" where
  "is_P_transfer (P_transfer k v) = True" | "is_P_transfer p = False"

fun is_P_advance :: "'a pc \<Rightarrow> bool" where
  "is_P_advance P_advance = True" | "is_P_advance p = False"

fun is_P_post :: "'a pc \<Rightarrow> bool" where
  "is_P_post P_post = True" | "is_P_post p = False"

fun is_C_lock :: "'a pc \<Rightarrow> bool" where
  "is_C_lock (C_lock k v) = True" | "is_C_lock p = False"

fun is_C_transfer :: "'a pc \<Rightarrow> bool" where
  "is_C_transfer (C_transfer k v) = True" | "is_C_transfer p = False"

fun is_C_advance :: "'a pc \<Rightarrow> bool" where
  "is_C_advance C_advance = True" | "is_C_advance p = False"

fun is_C_post :: "'a pc \<Rightarrow> bool" where
  "is_C_post C_post = True" | "is_C_post p = False"

fun is_unwinding :: "'a pc \<Rightarrow> bool" where
  "is_unwinding (P_catch e) = True"
| "is_unwinding (P_rethrow e) = True"
| "is_unwinding (C_catch e) = True"
| "is_unwinding (C_rethrow e) = True"
| "is_unwinding p = False"

definition fifo_inv :: "nat \<Rightarrow> 'a system \<times> 'a list \<times> 'a list \<Rightarrow> bool" where
  "fifo_inv k c \<longleftrightarrow>
     (case c of (s, enq, deq) \<Rightarrow>
        let q = queue s; e = end_m q in
        e = length (storage_m q) \<and> k \<le> e \<and>
        count_at is_unwinding s = 0 \<and>
        count_at is_P_transfer s + count_at is_P_advance s = (if produce_at_mutex_m s then 1 else 0) \<and>
        count_at is_C_transfer s + count_at is_C_advance s = (if consume_at_mutex_m s then 1 else 0) \<and>
        sem_m (used_m q) + length deq
          + (count_at is_P_advance s + count_at is_P_post s + count_at is_C_lock s + count_at is_C_transfer s)
          = length enq \<and>
        sem_m (empty_m q) + length enq
          + (count_at is_P_lock s + count_at is_P_transfer s + count_at is_C_advance s + count_at is_C_post s)
          = k + length deq \<and>
        produce_at_m q = (length enq - count_at is_P_advance s) mod e \<and>
        consume_at_m q = (length deq - count_at is_C_advance s) mod e \<and>
        count_at is_P_advance s \<le> length enq \<and> count_at is_C_advance s \<le> length deq \<and>
        (\<forall>n. length deq \<le> n \<and> n < length enq \<longrightarrow>
             storage_m q ! (n mod e) = enq ! n) \<and>
        deq = take (length deq) enq)"

text \<open>
  Two producers and a consumer around a queue of two slots. Thread 1 reserves its slot
  and takes the mutex first, so its 6 enters before the 5 of thread 0, which called
  first; the consumer takes its item while thread 0 still holds the producers' mutex.
\<close>

definition interleaved :: "nat event list" where
  "interleaved =
     [CallProduce 0 Copy 5, CallProduce 1 Swap 6, CallConsume 2 Copy 0,
      Step 1, Step 0, Step 1, Step 1, Step 1, Step 0, Step 1, Step 2, Step 0,
      Step 2, Step 2, Step 0, Step 2, Step 0, Step 2]"

section \<open>Properties\<close>

subsection \<open>The wait loops\<close>

lemma wait_skip:
  "\<forall>i<n. os (k + i) = Fails EINTR \<Longrightarrow> wait os k s = wait os (k + n) s"
proof (induction n arbitrary: k)
  case 0
  then show ?case by simp
next
  case (Suc n)
  have "os k = Fails EINTR" using Suc.prems by (metis add.right_neutral zero_less_Suc)
  then have "wait os k s = wait os (Suc k) s"
    by (subst wait.simps) (simp add: sem_wait_def)
  moreover have "wait os (Suc k) s = wait os (Suc k + n) s"
    using Suc.prems by (intro Suc.IH) (metis add_Suc_shift Suc_less_eq)
  ultimately show ?case by simp
qed

lemma wait_at:
  "os n \<noteq> Fails EINTR \<Longrightarrow> wait os n s =
     (case os n of
        Succeeds \<Rightarrow> if sem_m s = 0 then None else Some (Inr (s\<lparr>sem_m := sem_m s - 1\<rparr>))
      | Fails e \<Rightarrow> Some (Inl (ErrnoException e ''Wait for semaphore failed'')))"
  by (subst wait.simps) (simp add: sem_wait_def split: oscall.splits)

lemma fb_skip:
  "\<forall>i<n. os (k + i) = Fails EINTR \<Longrightarrow> WaitSemaphore_fallback os k s = WaitSemaphore_fallback os (k + n) s"
proof (induction n arbitrary: k)
  case 0
  then show ?case by simp
next
  case (Suc n)
  have "os k = Fails EINTR" using Suc.prems by (metis add.right_neutral zero_less_Suc)
  then have "WaitSemaphore_fallback os k s = WaitSemaphore_fallback os (Suc k) s"
    by (subst WaitSemaphore_fallback.simps) (simp add: interprocess_wait_def get_native_error_def)
  moreover have "WaitSemaphore_fallback os (Suc k) s = WaitSemaphore_fallback os (Suc k + n) s"
    using Suc.prems by (intro Suc.IH) (metis add_Suc_shift Suc_less_eq)
  ultimately show ?case by simp
qed

lemma fb_at:
  "os n \<noteq> Fails EINTR \<Longrightarrow> WaitSemaphore_fallback os n s =
     (case os n of
        Succeeds \<Rightarrow> if sem_m s = 0 then None else Some (Inr (s\<lparr>sem_m := sem_m s - 1\<rparr>))
      | Fails e \<Rightarrow> Some (Inl (interprocess_exception e)))"
  by (subst WaitSemaphore_fallback.simps)
     (simp add: interprocess_wait_def get_native_error_def split: oscall.splits)


subsection \<open>Queue operations in a calm environment\<close>

lemma WaitSemaphore_calm:
  assumes "calm E"
  shows "WaitSemaphore (wait_calls E) s =
           (if sem_m s = 0 then None else Some (Inr (s\<lparr>sem_m := sem_m s - 1\<rparr>)))"
proof -
  from assms obtain n where n: "wait_calls E n = Succeeds" "\<forall>i<n. wait_calls E i = Fails EINTR"
    by (auto simp: calm_def)
  have "wait (wait_calls E) 0 s = wait (wait_calls E) n s"
    using wait_skip [of n "wait_calls E" 0 s] n(2) by simp
  also have "\<dots> = (if sem_m s = 0 then None else Some (Inr (s\<lparr>sem_m := sem_m s - 1\<rparr>)))"
    using wait_at [of "wait_calls E" n s] n(1) by simp
  finally show ?thesis by (simp add: WaitSemaphore_def)
qed

lemma post_calm: "calm E \<Longrightarrow> post (post_call E) s = Inr (s\<lparr>sem_m := Suc (sem_m s)\<rparr>)"
  by (simp add: calm_def post_def sem_post_def)

lemma Produce_calm:
  assumes "calm E" and "0 < sem_m (empty_m q)" and "assign_throws T (storage_m q ! produce_at_m q) v = None"
  shows "Produce T E q v =
           Some (Inr (q\<lparr>empty_m := (empty_m q)\<lparr>sem_m := sem_m (empty_m q) - 1\<rparr>,
                        storage_m := (storage_m q)[produce_at_m q := v],
                        produce_at_m := advance (produce_at_m q) (end_m q),
                        used_m := (used_m q)\<lparr>sem_m := Suc (sem_m (used_m q))\<rparr>\<rparr>))"
  using assms by (simp add: Produce_def WaitSemaphore_calm post_calm Let_def)

lemma Produce_blocks:
  assumes "calm E" and "sem_m (empty_m q) = 0"
  shows "Produce T E q v = None"
  using assms by (simp add: Produce_def WaitSemaphore_calm)

lemma Consume_calm:
  assumes "calm E" and "0 < sem_m (used_m q)" and "assign_throws T out (storage_m q ! consume_at_m q) = None"
  shows "Consume T E q out =
           Some (Inr (q\<lparr>used_m := (used_m q)\<lparr>sem_m := sem_m (used_m q) - 1\<rparr>,
                        consume_at_m := advance (consume_at_m q) (end_m q),
                        empty_m := (empty_m q)\<lparr>sem_m := Suc (sem_m (empty_m q))\<rparr>\<rparr>,
                      storage_m q ! consume_at_m q))"
  using assms by (simp add: Consume_def WaitSemaphore_calm post_calm Let_def)

lemma Consume_blocks:
  assumes "calm E" and "sem_m (used_m q) = 0"
  shows "Consume T E q out = None"
  using assms by (simp add: Consume_def WaitSemaphore_calm)

lemma advance_mod: "at < e \<Longrightarrow> advance at e = Suc at mod e"
  by (auto simp: advance_def)

lemma mod_shift_neq:
  fixes c :: nat
  assumes "i < u" and "u < e"
  shows "(c + i) mod e \<noteq> (c + u) mod e"
proof
  assume "(c + i) mod e = (c + u) mod e"
  then have "(c + u) mod e = (c + i) mod e" by simp
  then have "e dvd (c + u) - (c + i)"
    using assms(1) by (subst (asm) mod_eq_dvd_iff_nat) auto
  then have "e dvd u - i" by simp
  moreover have "0 < u - i" "u - i < e" using assms by auto
  ultimately show False using nat_dvd_not_less by blast
qed

lemma ring_snoc:
  assumes "u < length xs"
  shows "ring (xs[(c + u) mod length xs := v]) c (Suc u) = ring xs c u @ [v]"
proof -
  have "xs[(c + u) mod length xs := v] ! ((c + x) mod length xs) = xs ! ((c + x) mod length xs)"
    if "x < u" for x
    using mod_shift_neq [OF that assms, of c] by (simp add: nth_list_update)
  moreover have "xs[(c + u) mod length xs := v] ! ((c + u) mod length xs) = v"
  proof -
    have "0 < length xs" using assms by (cases xs) simp_all
    then have "(c + u) mod length xs < length xs" by (rule mod_less_divisor)
    then show ?thesis by (rule nth_list_update_eq)
  qed
  ultimately show ?thesis by (simp add: ring_def)
qed

lemma ring_Cons:
  assumes "c < length xs"
  shows "ring xs c (Suc u) = xs ! c # ring xs (Suc c mod length xs) u"
proof -
  have "[0..<Suc u] = 0 # map Suc [0..<u]"
    by (simp add: upt_conv_Cons map_Suc_upt del: upt_Suc)
  then show ?thesis using assms
    by (simp add: ring_def comp_def mod_simps del: upt_Suc)
qed

subsection \<open>PCQueue: the ring and the order of items\<close>

lemma all_le_Suc_split: "(\<forall>n\<le>Suc k. P n) \<longleftrightarrow> P 0 \<and> (\<forall>n\<le>k. P (Suc n))"
  by (metis Suc_le_mono le0 not0_implies_Suc)

lemma admits_prefixes:
  "admits free filled cs \<longleftrightarrow>
     (\<forall>n\<le>length cs.
        consumes (take n cs) \<le> filled + length (produced (take n cs)) \<and>
        filled + length (produced (take n cs)) \<le> consumes (take n cs) + (free + filled))"
proof (induction cs arbitrary: free filled)
  case Nil
  then show ?case by simp
next
  case (Cons c cs)
  show ?case
  proof (cases c)
    case (ProduceCall E v)
    show ?thesis
    proof (cases "0 < free")
      case True
      then show ?thesis
        using Cons.IH [of "free - 1" "Suc filled"] ProduceCall
        by (simp add: all_le_Suc_split)
    next
      case False
      then have "\<not> (filled + length (produced (take 1 (c # cs))) \<le> consumes (take 1 (c # cs)) + (free + filled))"
        using ProduceCall by simp
      then show ?thesis using False ProduceCall
        by (metis One_nat_def Suc_le_mono admits.simps(2) le0 length_Cons)
    qed
  next
    case (ConsumeCall E)
    show ?thesis
    proof (cases "0 < filled")
      case True
      then obtain f where f: "filled = Suc f" by (cases filled) auto
      show ?thesis
        using Cons.IH [of "Suc free" f] ConsumeCall
        by (simp add: all_le_Suc_split f)
    next
      case False
      then have "\<not> (consumes (take 1 (c # cs)) \<le> filled + length (produced (take 1 (c # cs))))"
        using ConsumeCall by simp
      then show ?thesis using False ConsumeCall
        by (metis One_nat_def Suc_le_mono admits.simps(3) le0 length_Cons)
    qed
  qed
qed

lemma within_admits: "within k cs \<longleftrightarrow> admits k 0 cs"
  by (simp add: within_def admits_prefixes [of k 0 cs])

lemma Consume0_calm:
  assumes "calm E" and "0 < sem_m (used_m q)" and "nothrow T"
  shows "Consume0 T E q =
           Some (Inr (q\<lparr>used_m := (used_m q)\<lparr>sem_m := sem_m (used_m q) - 1\<rparr>,
                        consume_at_m := advance (consume_at_m q) (end_m q),
                        empty_m := (empty_m q)\<lparr>sem_m := Suc (sem_m (empty_m q))\<rparr>\<rparr>,
                      storage_m q ! consume_at_m q))"
  using assms by (simp add: Consume0_def Consume_calm nothrow_def)

lemma produce_step:
  fixes v :: 'a and q :: "'a PCQueue"
  assumes "consistent q" and "0 < sem_m (empty_m q)"
  defines "q' \<equiv> q\<lparr>empty_m := (empty_m q)\<lparr>sem_m := sem_m (empty_m q) - 1\<rparr>,
                        storage_m := (storage_m q)[produce_at_m q := v],
                        produce_at_m := advance (produce_at_m q) (end_m q),
                        used_m := (used_m q)\<lparr>sem_m := Suc (sem_m (used_m q))\<rparr>\<rparr>"
  shows "consistent q'" and "pending q' = pending q @ [v]"
    and "sem_m (empty_m q') + sem_m (used_m q') = sem_m (empty_m q) + sem_m (used_m q)"
proof -
  let ?e = "end_m q" and ?u = "sem_m (used_m q)" and ?c = "consume_at_m q"
  have e: "?e = length (storage_m q)" and u: "?u < ?e" and c: "?c < ?e"
    and p: "produce_at_m q = (?c + ?u) mod ?e"
    using assms(1,2) by (auto simp: consistent_def)
  have "produce_at_m q < ?e" using p u by simp
  then have adv: "advance (produce_at_m q) ?e = Suc (?c + ?u) mod ?e"
    by (simp add: advance_mod p mod_Suc_eq)
  show "consistent q'"
    using assms(1,2) adv by (auto simp: consistent_def q'_def)
  show "pending q' = pending q @ [v]"
    using ring_snoc [of ?u "storage_m q" ?c v] u e p
    by (simp add: pending_def q'_def)
  show "sem_m (empty_m q') + sem_m (used_m q') = sem_m (empty_m q) + sem_m (used_m q)"
    using assms(2) by (simp add: q'_def)
qed

lemma consume_step:
  assumes "consistent q" and "0 < sem_m (used_m q)"
  defines "q' \<equiv> q\<lparr>used_m := (used_m q)\<lparr>sem_m := sem_m (used_m q) - 1\<rparr>,
                        consume_at_m := advance (consume_at_m q) (end_m q),
                        empty_m := (empty_m q)\<lparr>sem_m := Suc (sem_m (empty_m q))\<rparr>\<rparr>"
  shows "consistent q'" and "pending q = storage_m q ! consume_at_m q # pending q'"
    and "sem_m (empty_m q') + sem_m (used_m q') = sem_m (empty_m q) + sem_m (used_m q)"
proof -
  let ?e = "end_m q" and ?u = "sem_m (used_m q)" and ?c = "consume_at_m q"
  have e: "?e = length (storage_m q)" and c: "?c < ?e"
    and p: "produce_at_m q = (?c + ?u) mod ?e"
    using assms(1,2) by (auto simp: consistent_def)
  have adv: "advance ?c ?e = Suc ?c mod ?e"
    using c by (simp add: advance_mod)
  obtain u' where u': "?u = Suc u'" using assms(2) by (cases ?u) auto
  have "(Suc ?c mod ?e + u') mod ?e = (?c + ?u) mod ?e"
    by (simp add: u' mod_simps)
  then show "consistent q'"
    using assms(1,2) adv c u' by (auto simp: consistent_def q'_def)
  show "pending q = storage_m q ! consume_at_m q # pending q'"
    using ring_Cons [of ?c "storage_m q" u'] c e adv
    by (simp add: pending_def q'_def u')
  show "sem_m (empty_m q') + sem_m (used_m q') = sem_m (empty_m q) + sem_m (used_m q)"
    using assms(2) by (simp add: q'_def)
qed

lemma run_fifo:
  assumes "nothrow T"
  shows "consistent q \<Longrightarrow> \<forall>c\<in>set cs. calm (call_env c) \<Longrightarrow>
         admits (sem_m (empty_m q)) (sem_m (used_m q)) cs \<Longrightarrow>
         \<exists>q'. run T q cs = Some (Inr (q', take (consumes cs) (pending q @ produced cs))) \<and>
              consistent q' \<and>
              pending q' = drop (consumes cs) (pending q @ produced cs) \<and>
              sem_m (empty_m q') + sem_m (used_m q') = sem_m (empty_m q) + sem_m (used_m q)"
proof (induction cs arbitrary: q)
  case Nil
  then show ?case by simp
next
  case (Cons c cs)
  show ?case
  proof (cases c)
    case (ProduceCall E v)
    let ?q = "q\<lparr>empty_m := (empty_m q)\<lparr>sem_m := sem_m (empty_m q) - 1\<rparr>,
                        storage_m := (storage_m q)[produce_at_m q := v],
                        produce_at_m := advance (produce_at_m q) (end_m q),
                        used_m := (used_m q)\<lparr>sem_m := Suc (sem_m (used_m q))\<rparr>\<rparr>"
    have free: "0 < sem_m (empty_m q)" and rest: "admits (sem_m (empty_m q) - 1) (Suc (sem_m (used_m q))) cs"
      using Cons.prems(3) ProduceCall by simp_all
    have E: "calm E" using Cons.prems(2) ProduceCall by simp
    have step: "Produce T E q v = Some (Inr ?q)"
      using Produce_calm [OF E free] assms by (simp add: nothrow_def)
    note ps = produce_step [OF Cons.prems(1) free, where v = v]
    have "admits (sem_m (empty_m ?q)) (sem_m (used_m ?q)) cs" using rest by simp
    from Cons.IH [OF ps(1) _ this] Cons.prems(2)
    obtain q' where q': "run T ?q cs = Some (Inr (q', take (consumes cs) (pending ?q @ produced cs)))"
      "consistent q'" "pending q' = drop (consumes cs) (pending ?q @ produced cs)"
      "sem_m (empty_m q') + sem_m (used_m q') = sem_m (empty_m ?q) + sem_m (used_m ?q)"
      by auto
    have app: "pending ?q @ produced cs = pending q @ produced (c # cs)"
      using ps(2) ProduceCall by simp
    have "run T q (c # cs) = run T ?q cs"
      using step ProduceCall by simp
    moreover have "consumes (c # cs) = consumes cs"
      using ProduceCall by simp
    ultimately show ?thesis
      using q' ps(3) unfolding app by (intro exI [of _ q']) (simp del: produced.simps)
  next
    case (ConsumeCall E)
    let ?q = "q\<lparr>used_m := (used_m q)\<lparr>sem_m := sem_m (used_m q) - 1\<rparr>,
                        consume_at_m := advance (consume_at_m q) (end_m q),
                        empty_m := (empty_m q)\<lparr>sem_m := Suc (sem_m (empty_m q))\<rparr>\<rparr>"
    have filled: "0 < sem_m (used_m q)" and rest: "admits (Suc (sem_m (empty_m q))) (sem_m (used_m q) - 1) cs"
      using Cons.prems(3) ConsumeCall by simp_all
    have E: "calm E" using Cons.prems(2) ConsumeCall by simp
    have step: "Consume0 T E q = Some (Inr (?q, storage_m q ! consume_at_m q))"
      using Consume0_calm [OF E filled assms] by simp
    note cs = consume_step [OF Cons.prems(1) filled]
    have "admits (sem_m (empty_m ?q)) (sem_m (used_m ?q)) cs" using rest by simp
    from Cons.IH [OF cs(1) _ this] Cons.prems(2)
    obtain q' where q': "run T ?q cs = Some (Inr (q', take (consumes cs) (pending ?q @ produced cs)))"
      "consistent q'" "pending q' = drop (consumes cs) (pending ?q @ produced cs)"
      "sem_m (empty_m q') + sem_m (used_m q') = sem_m (empty_m ?q) + sem_m (used_m ?q)"
      by auto
    have run: "run T q (c # cs) =
                 Some (Inr (q', storage_m q ! consume_at_m q #
                                take (consumes cs) (pending ?q @ produced cs)))"
      using step q'(1) ConsumeCall by simp
    have "pending q @ produced (c # cs) = storage_m q ! consume_at_m q # (pending ?q @ produced cs)"
      using cs(2) ConsumeCall by simp
    moreover have "consumes (c # cs) = Suc (consumes cs)"
      using ConsumeCall by simp
    ultimately show ?thesis
      using q'(2-4) cs(3) run by (intro exI [of _ q']) (simp del: produced.simps)
  qed
qed

subsection \<open>PCQueue: swaps and failed transfers in a calm environment\<close>

lemma ProduceSwap_calm:
  assumes "calm E" and "0 < sem_m (empty_m q)"
    and "swap_throws T (storage_m q ! produce_at_m q) v = None"
  shows "ProduceSwap T E q v =
           Some (Inr (q\<lparr>empty_m := (empty_m q)\<lparr>sem_m := sem_m (empty_m q) - 1\<rparr>,
                        storage_m := (storage_m q)[produce_at_m q := v],
                        produce_at_m := advance (produce_at_m q) (end_m q),
                        used_m := (used_m q)\<lparr>sem_m := Suc (sem_m (used_m q))\<rparr>\<rparr>,
                      storage_m q ! produce_at_m q))"
  using assms by (simp add: ProduceSwap_def WaitSemaphore_calm post_calm Let_def)

lemma ConsumeSwap_calm:
  assumes "calm E" and "0 < sem_m (used_m q)"
    and "swap_throws T out (storage_m q ! consume_at_m q) = None"
  shows "ConsumeSwap T E q out =
           Some (Inr (q\<lparr>used_m := (used_m q)\<lparr>sem_m := sem_m (used_m q) - 1\<rparr>,
                        storage_m := (storage_m q)[consume_at_m q := out],
                        consume_at_m := advance (consume_at_m q) (end_m q),
                        empty_m := (empty_m q)\<lparr>sem_m := Suc (sem_m (empty_m q))\<rparr>\<rparr>,
                      storage_m q ! consume_at_m q))"
  using assms by (simp add: ConsumeSwap_def WaitSemaphore_calm post_calm Let_def)

lemma sem_restore: "0 < sem_m s \<Longrightarrow> s\<lparr>sem_m := Suc (sem_m s - 1)\<rparr> = s"
  by simp

lemma Produce_rollback:
  assumes "calm E" and "0 < sem_m (empty_m q)"
    and "assign_throws T (storage_m q ! produce_at_m q) v = Some (e, left)"
  shows "Produce T E q v = Some (Inl (e, q\<lparr>storage_m := (storage_m q)[produce_at_m q := left]\<rparr>))"
  using assms by (simp add: Produce_def WaitSemaphore_calm post_calm Let_def)

lemma ProduceSwap_rollback:
  assumes "calm E" and "0 < sem_m (empty_m q)"
    and "swap_throws T (storage_m q ! produce_at_m q) v = Some (e, slot', v')"
  shows "ProduceSwap T E q v =
           Some (Inl (e, q\<lparr>storage_m := (storage_m q)[produce_at_m q := slot']\<rparr>, v'))"
  using assms by (simp add: ProduceSwap_def WaitSemaphore_calm post_calm Let_def)

lemma Consume_rollback:
  assumes "calm E" and "0 < sem_m (used_m q)"
    and "assign_throws T out (storage_m q ! consume_at_m q) = Some (e, left)"
  shows "Consume T E q out = Some (Inl (e, q, left))"
  using assms by (simp add: Consume_def WaitSemaphore_calm post_calm Let_def)

lemma ConsumeSwap_rollback:
  assumes "calm E" and "0 < sem_m (used_m q)"
    and "swap_throws T out (storage_m q ! consume_at_m q) = Some (e, out', slot')"
  shows "ConsumeSwap T E q out =
           Some (Inl (e, q\<lparr>storage_m := (storage_m q)[consume_at_m q := slot']\<rparr>, out'))"
  using assms by (simp add: ConsumeSwap_def WaitSemaphore_calm post_calm Let_def)

subsection \<open>PCQueue: construction\<close>

lemma Semaphore_Inr: "Semaphore ev v = Inr s \<Longrightarrow> s = \<lparr>sem_m = unat v\<rparr>"
  by (auto simp: Semaphore_def sem_init_def split: oscall.splits if_splits)

lemma PCQueue_fresh:
  assumes "PCQueue T ev1 ev2 sz = Inr q"
  shows "q = \<lparr>empty_m = \<lparr>sem_m = unat sz mod 2 ^ 32\<rparr>, used_m = \<lparr>sem_m = 0\<rparr>,
              storage_m = replicate (unat sz) (dflt T), end_m = unat sz,
              produce_at_m = 0, consume_at_m = 0\<rparr>"
proof -
  have "unat (ucast sz :: 32 word) = unat sz mod 2 ^ 32"
    by (simp add: unsigned_ucast_eq take_bit_eq_mod)
  then show ?thesis
    using assms by (auto simp: PCQueue_def split: sum.splits dest!: Semaphore_Inr)
qed

lemma PCQueue_consistent:
  assumes "PCQueue T ev1 ev2 sz = Inr q"
  shows "consistent q" and "pending q = []"
proof -
  have "unat sz mod 2 ^ 32 \<le> unat sz" by simp
  moreover have "0 < unat sz \<or> unat sz = 0" by auto
  ultimately show "consistent q"
    unfolding PCQueue_fresh [OF assms] consistent_def by auto
  show "pending q = []"
    unfolding PCQueue_fresh [OF assms] by (simp add: pending_def ring_def)
qed

lemma calm_quiet: "calm quiet"
  by (auto simp: calm_def quiet_def)

lemma calm_stormy: "calm stormy"
  unfolding calm_def stormy_def twice_interrupted_def
  by (auto intro: exI [of _ 2])

lemma nothrow_nat_element: "nothrow nat_element"
  by (simp add: nothrow_def nat_element_def)

lemma fresh2: "PCQueue nat_element Succeeds Succeeds 2 = Inr nat_fresh2"
proof -
  have "replicate 2 (0::nat) = [0, 0]" by (simp add: numeral_2_eq_2)
  then show ?thesis
    by (simp add: PCQueue_def Semaphore_def sem_init_def nat_element_def nat_fresh2_def)
qed


subsection \<open>PCQueue: a transfer that throws\<close>

lemma with_slot_same: "with_slot q at (storage_m q ! at) = q"
  by (simp add: with_slot_def)

lemma with_slot_fields:
  "empty_m (with_slot q at x) = empty_m q" "used_m (with_slot q at x) = used_m q"
  "end_m (with_slot q at x) = end_m q" "produce_at_m (with_slot q at x) = produce_at_m q"
  "consume_at_m (with_slot q at x) = consume_at_m q"
  "storage_m (with_slot q at x) = (storage_m q)[at := x]"
  by (simp_all add: with_slot_def)

lemma consistent_with_slot: "consistent (with_slot q at x) \<longleftrightarrow> consistent q"
  by (simp add: consistent_def with_slot_fields)

lemma ring_update_outside:
  assumes "u < length xs"
  shows "ring (xs[(c + u) mod length xs := x]) c u = ring xs c u"
proof -
  have "xs[(c + u) mod length xs := x] ! ((c + i) mod length xs) = xs ! ((c + i) mod length xs)"
    if "i < u" for i
    using mod_shift_neq [OF that assms, of c] by (simp add: nth_list_update)
  then show ?thesis by (simp add: ring_def)
qed

lemma pending_free_slot:
  assumes "consistent q" and "0 < sem_m (empty_m q)"
  shows "pending (with_slot q (produce_at_m q) x) = pending q"
proof -
  have "sem_m (used_m q) < length (storage_m q)"
    and "produce_at_m q = (consume_at_m q + sem_m (used_m q)) mod length (storage_m q)"
    using assms by (auto simp: consistent_def)
  then show ?thesis
    using ring_update_outside [of "sem_m (used_m q)" "storage_m q" "consume_at_m q" x]
    by (simp add: pending_def with_slot_fields)
qed

lemmas eval_defs =
  Produce_def ProduceSwap_def Consume_def ConsumeSwap_def Consume0_def WaitSemaphore_def
  wait.simps sem_wait_def post_def sem_post_def quiet_def advance_def

lemma memberwise_fresh_constructed:
  "PCQueue memberwise Succeeds Succeeds 2 = Inr memberwise_fresh"
proof -
  have "replicate 2 (0::nat, 1::nat) = [(0, 1), (0, 1)]" by (simp add: numeral_2_eq_2)
  then show ?thesis
    by (simp add: PCQueue_def Semaphore_def sem_init_def memberwise_def memberwise_fresh_def)
qed

text \<open>
  C2, as amended. When the assignment or swap of a queue operation throws (and the
  semaphore calls do not fail), the exception propagates and leaves the queue as it was
  but for the slot under the cursor: both semaphore counters, both cursors and every
  other slot are as before the call, so the count taken by the wait has been posted
  back, the cursor has not advanced and the opposite semaphore has not been posted. The
  slot under the cursor holds what the failed assignment or swap left in it. A failed
  \<open>Consume\<close> only reads the slot, so it leaves the queue exactly as it was; so does any
  failed transfer that leaves the slot unchanged. After a failed \<open>Produce\<close> or
  \<open>ProduceSwap\<close> the pending items and the representation invariant are as before.
\<close>

theorem transfer_failure_rollback:
  assumes "calm E"
  shows "(0 < sem_m (empty_m q) \<and>
            assign_throws T (storage_m q ! produce_at_m q) v = Some (e, left) \<longrightarrow>
          Produce T E q v = Some (Inl (e, with_slot q (produce_at_m q) left)))
       \<and> (0 < sem_m (empty_m q) \<and>
            swap_throws T (storage_m q ! produce_at_m q) v = Some (e, left, v') \<longrightarrow>
          ProduceSwap T E q v = Some (Inl (e, with_slot q (produce_at_m q) left, v')))
       \<and> (0 < sem_m (used_m q) \<and>
            assign_throws T out (storage_m q ! consume_at_m q) = Some (e, out') \<longrightarrow>
          Consume T E q out = Some (Inl (e, q, out')))
       \<and> (0 < sem_m (used_m q) \<and>
            swap_throws T out (storage_m q ! consume_at_m q) = Some (e, out', left) \<longrightarrow>
          ConsumeSwap T E q out = Some (Inl (e, with_slot q (consume_at_m q) left, out')))
       \<and> empty_m (with_slot q at x) = empty_m q
       \<and> used_m (with_slot q at x) = used_m q
       \<and> produce_at_m (with_slot q at x) = produce_at_m q
       \<and> consume_at_m (with_slot q at x) = consume_at_m q
       \<and> end_m (with_slot q at x) = end_m q
       \<and> storage_m (with_slot q at x) = (storage_m q)[at := x]
       \<and> with_slot q at (storage_m q ! at) = q
       \<and> (consistent q \<longrightarrow> consistent (with_slot q at x))
       \<and> (consistent q \<and> 0 < sem_m (empty_m q) \<longrightarrow>
            pending (with_slot q (produce_at_m q) x) = pending q)"
  using assms
  by (simp add: Produce_rollback ProduceSwap_rollback Consume_rollback ConsumeSwap_rollback
        with_slot_fields with_slot_same consistent_with_slot pending_free_slot)

text \<open>
  C2 as stated fails: on a fresh queue of two structs, \<open>Produce((7, 3))\<close> throws after
  the first member of the slot has been assigned, the stored items differ from those
  before the call, and a later \<open>ProduceSwap\<close> hands back \<open>(7, 1)\<close> where it would have
  handed back the default \<open>(0, 1)\<close>.
\<close>

theorem transfer_failure_counterexample:
  "PCQueue memberwise Succeeds Succeeds 2 = Inr memberwise_fresh
   \<and> Produce memberwise quiet memberwise_fresh (7, 3)
       = Some (Inl (ElementError ''bad_alloc'', memberwise_after))
   \<and> memberwise_after \<noteq> memberwise_fresh
   \<and> ProduceSwap memberwise quiet memberwise_fresh (5, 1) = Some (Inr (memberwise_one, (0, 1)))
   \<and> ProduceSwap memberwise quiet memberwise_after (5, 1) = Some (Inr (memberwise_one, (7, 1)))"
proof -
  have "Produce memberwise quiet memberwise_fresh (7, 3)
          = Some (Inl (ElementError ''bad_alloc'', memberwise_after))"
    by (simp add: eval_defs Let_def memberwise_def memberwise_fresh_def memberwise_after_def)
  moreover have "memberwise_after \<noteq> memberwise_fresh"
    by (simp add: memberwise_fresh_def memberwise_after_def)
  moreover have "ProduceSwap memberwise quiet memberwise_fresh (5, 1)
          = Some (Inr (memberwise_one, (0, 1)))"
    by (simp add: eval_defs Let_def memberwise_def memberwise_fresh_def memberwise_one_def)
  moreover have "ProduceSwap memberwise quiet memberwise_after (5, 1)
          = Some (Inr (memberwise_one, (7, 1)))"
    by (simp add: eval_defs Let_def memberwise_def memberwise_after_def memberwise_one_def)
  ultimately show ?thesis
    using memberwise_fresh_constructed by simp
qed

theorem transfer_failure_rollback_witness:
  "calm quiet
   \<and> Produce memberwise quiet memberwise_one (7, 3)
       = Some (Inl (ElementError ''bad_alloc'', with_slot memberwise_one 1 (7, 1)))
   \<and> ProduceSwap memberwise quiet memberwise_one (7, 3)
       = Some (Inl (ElementError ''bad_alloc'', with_slot memberwise_one 1 (7, 1), (7, 3)))
   \<and> Consume memberwise quiet memberwise_one (0, 0)
       = Some (Inl (ElementError ''bad_alloc'', memberwise_one, (5, 0)))
   \<and> ConsumeSwap memberwise quiet memberwise_one (9, 2)
       = Some (Inl (ElementError ''bad_alloc'', with_slot memberwise_one 0 (9, 1), (5, 1)))
   \<and> consistent memberwise_one
   \<and> pending (with_slot memberwise_one 1 (7, 1)) = [(5, 1)]
   \<and> pending (with_slot memberwise_one 0 (9, 1)) = [(9, 1)]"
proof -
  note t = transfer_failure_rollback [OF calm_quiet, where q = memberwise_one and T = memberwise
      and e = "ElementError ''bad_alloc''"]
  have c: "consistent memberwise_one"
    by (simp add: consistent_def memberwise_one_def)
  have p: "pending memberwise_one = [(5, 1)]"
    by (simp add: pending_def ring_def memberwise_one_def)
  have "pending (with_slot memberwise_one 0 (9, 1)) = [(9, 1)]"
    by (simp add: pending_def ring_def with_slot_def memberwise_one_def)
  then show ?thesis
    using t [where v = "(7, 3)" and left = "(7, 1)" and v' = "(7, 3)" and out = "(0, 0)"
          and out' = "(5, 0)" and x = "(7, 1)"]
      t [where out = "(9, 2)" and out' = "(5, 1)" and left = "(9, 1)"] c p calm_quiet
    by (simp add: memberwise_def memberwise_one_def)
qed

subsection \<open>PCQueue: calls that return\<close>

lemma run_admits:
  assumes "nothrow T"
  shows "\<forall>c\<in>set cs. calm (call_env c) \<Longrightarrow> run T q cs = Some (Inr r) \<Longrightarrow>
         consistent q \<Longrightarrow> admits (sem_m (empty_m q)) (sem_m (used_m q)) cs"
proof (induction cs arbitrary: q r)
  case Nil
  then show ?case by simp
next
  case (Cons c cs)
  show ?case
  proof (cases c)
    case (ProduceCall E v)
    have E: "calm E" using Cons.prems(1) ProduceCall by simp
    have free: "0 < sem_m (empty_m q)"
    proof (rule ccontr)
      assume "\<not> 0 < sem_m (empty_m q)"
      then have "Produce T E q v = None" using Produce_blocks [OF E] by simp
      then show False using Cons.prems(2) ProduceCall by simp
    qed
    let ?q = "q\<lparr>empty_m := (empty_m q)\<lparr>sem_m := sem_m (empty_m q) - 1\<rparr>,
                        storage_m := (storage_m q)[produce_at_m q := v],
                        produce_at_m := advance (produce_at_m q) (end_m q),
                        used_m := (used_m q)\<lparr>sem_m := Suc (sem_m (used_m q))\<rparr>\<rparr>"
    have step: "Produce T E q v = Some (Inr ?q)"
      using Produce_calm [OF E free] assms by (simp add: nothrow_def)
    then have "run T ?q cs = Some (Inr r)"
      using Cons.prems(2) ProduceCall by simp
    from Cons.IH [OF _ this produce_step(1) [OF Cons.prems(3) free, where v = v]] Cons.prems(1)
    show ?thesis using free ProduceCall by simp
  next
    case (ConsumeCall E)
    have E: "calm E" using Cons.prems(1) ConsumeCall by simp
    have filled: "0 < sem_m (used_m q)"
    proof (rule ccontr)
      assume "\<not> 0 < sem_m (used_m q)"
      then have "Consume T E q (dflt T) = None"
        by (intro Consume_blocks [OF E]) simp
      then have "Consume0 T E q = None"
        by (simp add: Consume0_def)
      then show False using Cons.prems(2) ConsumeCall by simp
    qed
    let ?q = "q\<lparr>used_m := (used_m q)\<lparr>sem_m := sem_m (used_m q) - 1\<rparr>,
                        consume_at_m := advance (consume_at_m q) (end_m q),
                        empty_m := (empty_m q)\<lparr>sem_m := Suc (sem_m (empty_m q))\<rparr>\<rparr>"
    have step: "Consume0 T E q = Some (Inr (?q, storage_m q ! consume_at_m q))"
      using Consume0_calm [OF E filled assms] by simp
    then obtain r' where "run T ?q cs = Some (Inr r')"
      using Cons.prems(2) ConsumeCall by (auto split: option.splits sum.splits)
    from Cons.IH [OF _ this consume_step(1) [OF Cons.prems(3) filled]] Cons.prems(1)
    show ?thesis using filled ConsumeCall by simp
  qed
qed

lemma length_pending: "length (pending q) = sem_m (used_m q)"
  by (simp add: pending_def ring_def)

lemma produced_only: "consumes cs = 0 \<Longrightarrow> length (produced cs) = length cs"
  by (induction cs rule: produced.induct) simp_all

subsection \<open>PCQueue: swapping in and out\<close>

text \<open>
  C4. \<open>ProduceSwap(v)\<close> on a freshly constructed queue returns with \<open>v\<close> holding a
  default-constructed \<open>T\<close>, since the slots of a fresh queue are default-constructed.
  \<open>ConsumeSwap(out)\<close> returns the item under \<open>consume_at_\<close> in \<open>out\<close> and leaves the slot it
  vacated holding the value \<open>out\<close> had before the call. (The calls return: the queue has a
  free slot, respectively an item, the swap does not throw and the semaphore calls do not
  fail.)
\<close>

theorem swap_semantics:
  "(PCQueue T ev1 ev2 sz = Inr q0 \<and> calm E \<and> 0 < sem_m (empty_m q0) \<and>
      swap_throws T (dflt T) v = None \<longrightarrow>
      (\<exists>q'. ProduceSwap T E q0 v = Some (Inr (q', dflt T))))
   \<and> (consistent q \<and> calm E' \<and> 0 < sem_m (used_m q) \<and>
      swap_throws T out (storage_m q ! consume_at_m q) = None \<longrightarrow>
      (\<exists>q'. ConsumeSwap T E' q out = Some (Inr (q', storage_m q ! consume_at_m q)) \<and>
            storage_m q' ! consume_at_m q = out))"
proof -
  have "\<exists>q'. ProduceSwap T E q0 v = Some (Inr (q', dflt T))"
    if "PCQueue T ev1 ev2 sz = Inr q0" "calm E" "0 < sem_m (empty_m q0)"
      "swap_throws T (dflt T) v = None"
  proof -
    note f = PCQueue_fresh [OF that(1)]
    have "0 < unat sz"
      using that(3) unfolding f by (cases "unat sz = 0") simp_all
    then have slot: "storage_m q0 ! produce_at_m q0 = dflt T"
      unfolding f by simp
    show ?thesis
      using ProduceSwap_calm [OF that(2,3), of T v] that(4) slot by simp
  qed
  moreover have "\<exists>q'. ConsumeSwap T E' q out = Some (Inr (q', storage_m q ! consume_at_m q)) \<and>
            storage_m q' ! consume_at_m q = out"
    if "consistent q" "calm E'" "0 < sem_m (used_m q)"
      "swap_throws T out (storage_m q ! consume_at_m q) = None"
  proof -
    have "consume_at_m q < length (storage_m q)"
      using that(1,3) by (auto simp: consistent_def)
    then show ?thesis
      using ConsumeSwap_calm [OF that(2,3,4)] by simp
  qed
  ultimately show ?thesis by blast
qed

theorem swap_semantics_witness:
  "PCQueue nat_element Succeeds Succeeds 2 = Inr nat_fresh2
   \<and> (\<exists>q'. ProduceSwap nat_element quiet nat_fresh2 7 = Some (Inr (q', 0)))
   \<and> consistent nat_full2
   \<and> (\<exists>q'. ConsumeSwap nat_element stormy nat_full2 9 = Some (Inr (q', 1)) \<and>
            storage_m q' ! 0 = 9)"
proof -
  have c: "consistent nat_full2"
    by (simp add: consistent_def nat_full2_def)
  have e: "0 < sem_m (empty_m nat_fresh2)" "0 < sem_m (used_m nat_full2)"
    by (simp_all add: nat_fresh2_def nat_full2_def)
  have s: "swap_throws nat_element a b = None" for a b
    by (simp add: nat_element_def)
  show ?thesis
    using swap_semantics [of nat_element Succeeds Succeeds 2 nat_fresh2 quiet 7 nat_full2 stormy 9]
      fresh2 calm_quiet calm_stormy c e s
    by (simp add: nat_element_def nat_full2_def)
qed

subsection \<open>Semaphore: waiting and teardown\<close>

text \<open>
  C7. \<open>Semaphore::wait\<close> (Linux) and the fallback \<open>WaitSemaphore\<close> retry when the blocking
  call is interrupted (\<open>EINTR\<close>): after any number \<open>n\<close> of interrupted calls the outcome is
  that of the first call that is not interrupted. If that call is carried out, the wait
  returns normally with the counter decremented by one, and only if the counter was
  positive (on a zero counter it does not return); if it fails with another error, the
  wait throws that error to the caller without retrying.
\<close>

theorem wait_retries_on_EINTR:
  assumes "\<forall>i<n. os i = Fails EINTR" and "os n \<noteq> Fails EINTR"
  shows "wait os 0 s =
           (case os n of
              Succeeds \<Rightarrow> if sem_m s = 0 then None else Some (Inr (s\<lparr>sem_m := sem_m s - 1\<rparr>))
            | Fails e \<Rightarrow> Some (Inl (ErrnoException e ''Wait for semaphore failed'')))
       \<and> WaitSemaphore_fallback os 0 s =
           (case os n of
              Succeeds \<Rightarrow> if sem_m s = 0 then None else Some (Inr (s\<lparr>sem_m := sem_m s - 1\<rparr>))
            | Fails e \<Rightarrow> Some (Inl (interprocess_exception e)))"
proof -
  have "wait os 0 s = wait os n s"
    using wait_skip [of n os 0 s] assms(1) by simp
  moreover have "WaitSemaphore_fallback os 0 s = WaitSemaphore_fallback os n s"
    using fb_skip [of n os 0 s] assms(1) by simp
  ultimately show ?thesis
    using wait_at [of os n s] fb_at [of os n s] assms(2) by simp
qed

theorem wait_retries_on_EINTR_witness:
  "wait (twice_interrupted Succeeds) 0 \<lparr>sem_m = 1\<rparr> = Some (Inr \<lparr>sem_m = 0\<rparr>)
   \<and> WaitSemaphore_fallback (twice_interrupted Succeeds) 0 \<lparr>sem_m = 1\<rparr> = Some (Inr \<lparr>sem_m = 0\<rparr>)
   \<and> wait (twice_interrupted (Fails 22)) 0 \<lparr>sem_m = 1\<rparr>
       = Some (Inl (ErrnoException 22 ''Wait for semaphore failed''))
   \<and> WaitSemaphore_fallback (twice_interrupted (Fails 22)) 0 \<lparr>sem_m = 1\<rparr>
       = Some (Inl (interprocess_exception 22))"
  using wait_retries_on_EINTR [of 2 "twice_interrupted Succeeds" "\<lparr>sem_m = 1\<rparr>"]
        wait_retries_on_EINTR [of 2 "twice_interrupted (Fails 22)" "\<lparr>sem_m = 1\<rparr>"]
  by (simp add: twice_interrupted_def EINTR_def)

text \<open>A wait that is interrupted every time never returns.\<close>

lemma wait_returns_uninterrupted:
  "wait os k s = Some y \<Longrightarrow> \<exists>i. os i \<noteq> Fails EINTR"
proof (induction os k s y rule: wait.raw_induct [rotated 1, consumes 1])
  case (1 w os i s y)
  show ?case
  proof (cases "os i = Fails EINTR")
    case True
    then have "w os (Suc i) s = Some y"
      using 1(2) by (simp add: sem_wait_def)
    then show ?thesis by (rule 1(1))
  next
    case False
    then show ?thesis by blast
  qed
qed

lemma wait_interrupted_forever: "wait (\<lambda>i. Fails EINTR) k s = None"
  using wait_returns_uninterrupted [of "\<lambda>i. Fails EINTR" k s]
  by (cases "wait (\<lambda>i. Fails EINTR) k s") auto

text \<open>
  The Linux destructor: when \<open>sem_destroy\<close> fails the process logs and aborts, and the
  destructor never throws.
\<close>

lemma Semaphore_dtor_linux:
  "Semaphore_dtor what (Fails e) = LoggedAbort (''Could not destroy semaphore '' @ what e)"
  "Semaphore_dtor what Succeeds = Destroyed"
  "Semaphore_dtor what ev \<noteq> DtorThrows x"
  by (simp_all add: Semaphore_dtor_def sem_destroy_def split: oscall.splits)

text \<open>
  The Apple destructor: the exception that \<open>MACH_CALL\<close> throws when \<open>semaphore_destroy\<close>
  fails ends the process through \<open>std::terminate\<close>; no exception leaves the destructor.
\<close>

lemma Semaphore_dtor_apple_outcome:
  "kr \<noteq> KERN_SUCCESS \<Longrightarrow> Semaphore_dtor_apple kr = Terminated (Exception ''Mach call failure'')"
  "Semaphore_dtor_apple KERN_SUCCESS = Destroyed"
  "Semaphore_dtor_apple kr \<noteq> DtorThrows x"
  by (auto simp: Semaphore_dtor_apple_def MACH_CALL_def noexcept_def)

text \<open>
  C6. When destroying the operating system's semaphore fails, the failure is reported and
  the process aborts, and no error is raised out of the destructor. On Linux, where
  \<open>sem_destroy\<close> fails with any \<open>errno\<close>, the destructor writes ``Could not destroy
  semaphore'' with the rendering of \<open>errno\<close> to \<open>std::cerr\<close> and calls \<open>abort()\<close>. On Apple,
  where \<open>semaphore_destroy\<close> returns anything but \<open>KERN_SUCCESS\<close>, the exception ``Mach
  call failure'' thrown by \<open>MACH_CALL\<close> cannot leave the destructor, which is \<open>noexcept\<close>:
  the process ends in \<open>std::terminate\<close>, which reports the exception and aborts. Whatever
  the operating system answers, neither destructor lets an exception out.
\<close>

theorem teardown_failure_aborts:
  "Semaphore_dtor what (Fails e) = LoggedAbort (''Could not destroy semaphore '' @ what e)
   \<and> (kr \<noteq> KERN_SUCCESS \<longrightarrow>
        Semaphore_dtor_apple kr = Terminated (Exception ''Mach call failure''))
   \<and> Semaphore_dtor what ev \<noteq> DtorThrows x
   \<and> Semaphore_dtor_apple kr' \<noteq> DtorThrows x"
  by (simp add: Semaphore_dtor_linux Semaphore_dtor_apple_outcome)

theorem teardown_failure_aborts_witness:
  "Semaphore_dtor (\<lambda>e. ''Invalid argument'') (Fails 22)
     = LoggedAbort ''Could not destroy semaphore Invalid argument''
   \<and> (4 :: int) \<noteq> KERN_SUCCESS
   \<and> Semaphore_dtor_apple 4 = Terminated (Exception ''Mach call failure'')"
  using teardown_failure_aborts [of "\<lambda>e. ''Invalid argument''" 22 4]
  by (simp add: KERN_SUCCESS_def)

subsection \<open>UnboundedSingleQueue\<close>

lemma length_slots_upto:
  "(\<And>a. r \<le> a \<Longrightarrow> a < m \<Longrightarrow> length (page_entries h a) = c) \<Longrightarrow>
   length (concat (map (page_entries h) [r..<m])) = c * (m - r)"
proof (induction m)
  case 0
  then show ?case by simp
next
  case (Suc m)
  show ?case
  proof (cases "r \<le> m")
    case True
    then have "length (concat (map (page_entries h) [r..<m])) = c * (m - r)"
      using Suc by simp
    moreover have "length (page_entries h m) = c" using Suc.prems True by simp
    ultimately show ?thesis using True by (simp add: Suc_diff_le)
  next
    case False
    then show ?thesis by simp
  qed
qed

lemma slots_cong:
  assumes "news h' = news h" and "\<And>a. r \<le> a \<Longrightarrow> a < news h \<Longrightarrow> page_entries h' a = page_entries h a"
  shows "slots h' r = slots h r"
proof -
  have "map (page_entries h') [r..<news h] = map (page_entries h) [r..<news h]"
    by (rule map_cong) (simp_all add: assms(2))
  then show ?thesis unfolding slots_def assms(1) by (rule arg_cong)
qed

lemma slots_snoc:
  assumes "r < news h"
  shows "slots h r = concat (map (page_entries h) [r..<news h - 1]) @ page_entries h (news h - 1)"
proof -
  obtain m where m: "news h = Suc m" using assms by (cases "news h") auto
  then have "r \<le> m" using assms by simp
  then show ?thesis by (simp add: slots_def m)
qed

lemma slots_Cons:
  assumes "r < news h"
  shows "slots h r = page_entries h r @ slots h (Suc r)"
  using assms by (simp add: slots_def upt_conv_Cons)

lemma take_drop_update_snoc:
  assumes "i + k < length xs"
  shows "take (Suc k) (drop i (xs[i + k := v])) = take k (drop i xs) @ [v]"
proof -
  have "drop i (xs[i + k := v]) = (drop i xs)[k := v]"
    by (simp add: drop_update_swap)
  moreover have "k < length (drop i xs)" using assms by simp
  ultimately show ?thesis
    by (simp add: take_Suc_conv_app_nth)
qed

lemma chainedE:
  assumes "chained h q"
  obtains r i j where
    "reading_m q = Some r" "r < news h" "filling_m q = news h - 1"
    "reading_current_m q = (r, i)" "reading_end_m q = (r, entries_count)"
    "filling_current_m q = (news h - 1, j)" "filling_end_m q = (news h - 1, entries_count)"
    "i \<le> entries_count" "j \<le> entries_count"
    "\<forall>a. r \<le> a \<and> a < news h \<longrightarrow>
       (\<exists>pg. pages h a = Some pg \<and> length (entries pg) = entries_count \<and>
            next pg = (if Suc a < news h then Some (Suc a) else None))"
    "i + sem_m (valid_m q) = entries_count * (news h - 1 - r) + j"
proof -
  from assms obtain r where r:
    "reading_m q = Some r" "r < news h" "filling_m q = news h - 1"
    "fst (reading_current_m q) = r" "reading_end_m q = (r, entries_count)"
    "fst (filling_current_m q) = filling_m q"
    "filling_end_m q = (filling_m q, entries_count)"
    "snd (reading_current_m q) \<le> entries_count"
    "snd (filling_current_m q) \<le> entries_count"
    "\<forall>a. r \<le> a \<and> a < news h \<longrightarrow>
           (\<exists>pg. pages h a = Some pg \<and> length (entries pg) = entries_count \<and>
              next pg = (if Suc a < news h then Some (Suc a) else None))"
    "snd (reading_current_m q) + sem_m (valid_m q) = written h q"
    unfolding chained_def by blast
  show ?thesis
  proof (rule that [of r "snd (reading_current_m q)" "snd (filling_current_m q)"])
    show "reading_current_m q = (r, snd (reading_current_m q))"
      using r(4) by (cases "reading_current_m q") simp
    show "filling_current_m q = (news h - 1, snd (filling_current_m q))"
      using r(3,6) by (cases "filling_current_m q") simp
    show "snd (reading_current_m q) + sem_m (valid_m q)
            = entries_count * (news h - 1 - r) + snd (filling_current_m q)"
      using r(11) r(1,3) by (simp add: written_def)
  qed (use r in simp_all)
qed

lemma chainedI:
  assumes "reading_m q = Some r" "r < news h" "filling_m q = news h - 1"
    "reading_current_m q = (r, i)" "reading_end_m q = (r, entries_count)"
    "filling_current_m q = (news h - 1, j)" "filling_end_m q = (news h - 1, entries_count)"
    "i \<le> entries_count" "j \<le> entries_count"
    "\<And>a. r \<le> a \<Longrightarrow> a < news h \<Longrightarrow>
       \<exists>pg. pages h a = Some pg \<and> length (entries pg) = entries_count \<and>
            next pg = (if Suc a < news h then Some (Suc a) else None)"
    "i + sem_m (valid_m q) = entries_count * (news h - 1 - r) + j"
  shows "chained h q"
  unfolding chained_def written_def
  using assms by (intro exI [of _ r]) simp

lemma length_slots:
  assumes "\<And>a. r \<le> a \<Longrightarrow> a < news h \<Longrightarrow>
       \<exists>pg. pages h a = Some pg \<and> length (entries pg) = entries_count \<and> P a pg"
    and that: "m \<le> news h"
  shows "length (concat (map (page_entries h) [r..<m])) = entries_count * (m - r)"
proof (rule length_slots_upto)
  fix a assume "r \<le> a" "a < m"
  then obtain pg where "pages h a = Some pg" "length (entries pg) = entries_count"
    using assms that by (meson less_le_trans)
  then show "length (page_entries h a) = entries_count"
    by (simp add: page_entries_def)
qed

lemma Produce_unbounded_step:
  assumes ch: "chained h q" and E: "calm E"
    and nt: "\<And>d. assign_throws T d v = None"
  shows "\<exists>h' q'. Produce_unbounded T E h q v = Inr (h', q') \<and> chained h' q' \<and>
           pending_unbounded h' q' = pending_unbounded h q @ [v] \<and>
           sem_m (valid_m q') = Suc (sem_m (valid_m q)) \<and>
           reading_m q' = reading_m q \<and>
           news h' = (if filling_current_m q = filling_end_m q then Suc (news h) else news h) \<and>
           filling_current_m q' =
             (if filling_current_m q = filling_end_m q then (news h, Suc 0)
              else (fst (filling_current_m q), Suc (snd (filling_current_m q))))"
proof -
  from ch obtain r i j where f0:
    "reading_m q = Some r" "r < news h" "filling_m q = news h - 1"
    "reading_current_m q = (r, i)" "reading_end_m q = (r, entries_count)"
    "filling_current_m q = (news h - 1, j)" "filling_end_m q = (news h - 1, entries_count)"
    "i \<le> entries_count" "j \<le> entries_count"
    and pgs0: "\<forall>a. r \<le> a \<and> a < news h \<longrightarrow>
       (\<exists>pg. pages h a = Some pg \<and> length (entries pg) = entries_count \<and>
            next pg = (if Suc a < news h then Some (Suc a) else None))"
    and cnt0: "i + sem_m (valid_m q) = entries_count * (news h - 1 - r) + j"
    by (rule chainedE)
  obtain m where n: "news h = Suc m" using f0(2) by (cases "news h") auto
  have f: "reading_m q = Some r" "r \<le> m" "filling_m q = m"
    "reading_current_m q = (r, i)" "reading_end_m q = (r, entries_count)"
    "filling_current_m q = (m, j)" "filling_end_m q = (m, entries_count)"
    "i \<le> entries_count" "j \<le> entries_count"
    and cnt: "i + sem_m (valid_m q) = entries_count * (m - r) + j"
    using f0 cnt0 by (simp_all add: n)
  have pgs: "\<exists>pg. pages h a = Some pg \<and> length (entries pg) = entries_count \<and>
            next pg = (if a < m then Some (Suc a) else None)"
    if "r \<le> a" "a \<le> m" for a
    using pgs0 that by (simp add: n)
  let ?k = "sem_m (valid_m q)"
  obtain pg where pg: "pages h m = Some pg" "length (entries pg) = entries_count"
    "next pg = None"
    using pgs [of m] f(2) by auto
  have len: "length (concat (map (page_entries h) [r..<m])) = entries_count * (m - r)"
  proof (rule length_slots_upto)
    fix a assume "r \<le> a" "a < m"
    then show "length (page_entries h a) = entries_count"
      using pgs [of a] by (auto simp: page_entries_def)
  qed
  have pe: "page_entries h m = entries pg"
    using pg by (simp add: page_entries_def)
  have sl: "slots h r = concat (map (page_entries h) [r..<m]) @ entries pg"
    using f(2) pe by (simp add: slots_def n)
  show ?thesis
  proof (cases "j = entries_count")
    case False
    then have j: "j < entries_count" using f(9) by simp
    let ?pg = "pg\<lparr>entries := (entries pg)[j := v]\<rparr>"
    let ?h = "h\<lparr>pages := (pages h)(m \<mapsto> ?pg)\<rparr>"
    let ?q = "q\<lparr>filling_current_m := (m, Suc j), valid_m := (valid_m q)\<lparr>sem_m := Suc ?k\<rparr>\<rparr>"
    have res: "Produce_unbounded T E h q v = Inr (?h, ?q)"
      using False j pg nt by (simp add: Produce_unbounded_def f post_calm [OF E])
    have ch': "chained ?h ?q"
    proof (rule chainedI [of _ r _ i "Suc j"])
      show "i + sem_m (valid_m ?q) = entries_count * (news ?h - 1 - r) + Suc j"
        using cnt by (simp add: n)
      show "\<exists>pg. pages ?h a = Some pg \<and> length (entries pg) = entries_count \<and>
            next pg = (if Suc a < news ?h then Some (Suc a) else None)"
        if "r \<le> a" "a < news ?h" for a
        using pgs [of a] that pg by (cases "a = m") (auto simp: n)
    qed (use f j in \<open>simp_all add: n\<close>)
    have me: "map (page_entries ?h) [r..<m] = map (page_entries h) [r..<m]"
      by (rule map_cong) (simp_all add: page_entries_def)
    have pe': "page_entries ?h m = (entries pg)[j := v]"
      by (simp add: page_entries_def)
    have "slots ?h r = concat (map (page_entries h) [r..<m]) @ (entries pg)[j := v]"
      using f(2) by (simp add: slots_def n me pe')
    then have "slots ?h r = (slots h r)[entries_count * (m - r) + j := v]"
      using sl len by (simp add: list_update_append)
    then have sl': "slots ?h r = (slots h r)[i + ?k := v]"
      using cnt by simp
    have "i + ?k < length (slots h r)"
      using sl len cnt j pg(2) by simp
    from take_drop_update_snoc [OF this, of v]
    have "pending_unbounded ?h ?q = pending_unbounded h q @ [v]"
      by (simp add: pending_unbounded_def f sl')
    then show ?thesis
      using res ch' False by (simp add: f n)
  next
    case True
    let ?new = "UnboundedPage T"
    let ?pg = "pg\<lparr>next := Some (Suc m)\<rparr>"
    let ?new' = "?new\<lparr>entries := (entries ?new)[0 := v]\<rparr>"
    let ?h = "h\<lparr>pages := (pages h)(Suc m \<mapsto> ?new', m \<mapsto> ?pg), news := Suc (Suc m)\<rparr>"
    let ?q = "q\<lparr>filling_m := Suc m, filling_current_m := (Suc m, Suc 0),
                filling_end_m := (Suc m, entries_count),
                valid_m := (valid_m q)\<lparr>sem_m := Suc ?k\<rparr>\<rparr>"
    have newlen: "length (entries ?new) = entries_count"
      by (simp add: UnboundedPage_def entries_count_def)
    have pos: "0 < entries_count" by (simp add: entries_count_def)
    have res: "Produce_unbounded T E h q v = Inr (?h, ?q)"
      using True pg nt newlen pos
      by (simp add: Produce_unbounded_def f n post_calm [OF E] new_UnboundedPage_def
            SetFilling_def fun_upd_twist)
    have ch': "chained ?h ?q"
    proof (rule chainedI [of _ r _ i "Suc 0"])
      show "i + sem_m (valid_m ?q) = entries_count * (news ?h - 1 - r) + Suc 0"
        using cnt True f(2) by (simp add: Suc_diff_le algebra_simps)
      show "\<exists>pg. pages ?h a = Some pg \<and> length (entries pg) = entries_count \<and>
            next pg = (if Suc a < news ?h then Some (Suc a) else None)"
        if ra: "r \<le> a" and an: "a < news ?h" for a
      proof -
        have "a < Suc (Suc m)" using an by simp
        then consider "a = Suc m" | "a = m" | "a < m"
          by (auto simp: less_Suc_eq)
        then show ?thesis
        proof cases
          case 1
          then show ?thesis using newlen by (simp add: UnboundedPage_def)
        next
          case 2
          then show ?thesis using pg by simp
        next
          case 3
          then show ?thesis using pgs [of a] ra by auto
        qed
      qed
    qed (use f pos in simp_all)
    have me: "map (page_entries ?h) [r..<Suc m] = map (page_entries h) [r..<Suc m]"
      by (rule map_cong) (auto simp: page_entries_def pg)
    have pe': "page_entries ?h (Suc m) = entries ?new'"
      by (simp add: page_entries_def)
    have "[r..<Suc (Suc m)] = [r..<Suc m] @ [Suc m]"
      using f(2) by simp
    then have sl': "slots ?h r = slots h r @ entries ?new'"
      by (simp add: slots_def n me pe' del: upt_Suc)
    have full: "length (slots h r) = i + ?k"
      using sl len cnt True pg(2) by simp
    have "take (Suc ?k) (drop i (slots h r @ entries ?new')) = drop i (slots h r) @ [v]"
      using full newlen pos by (simp add: take_Suc_conv_app_nth)
    moreover have "take ?k (drop i (slots h r)) = drop i (slots h r)"
      using full by simp
    ultimately have "pending_unbounded ?h ?q = pending_unbounded h q @ [v]"
      by (simp add: pending_unbounded_def f sl')
    then show ?thesis
      using res ch' True by (simp add: f n)
  qed
qed

lemma take_drop_Cons:
  assumes "i < length xs"
  shows "take (Suc k) (drop i xs) = xs ! i # take k (drop (Suc i) xs)"
  using assms by (simp add: Cons_nth_drop_Suc [symmetric])

lemma Consume_unbounded_blocks:
  assumes "calm E" and "sem_m (valid_m q) = 0"
  shows "Consume_unbounded T E h q out = None"
  using assms by (simp add: Consume_unbounded_def WaitSemaphore_calm)

lemma Consume_unbounded_step:
  assumes ch: "chained h q" and E: "calm E" and pos: "0 < sem_m (valid_m q)"
    and nt: "\<And>s. assign_throws T out s = None"
  shows "\<exists>h' q' x. Consume_unbounded T E h q out = Some (Inr (h', q', x)) \<and> chained h' q' \<and>
           pending_unbounded h q = x # pending_unbounded h' q' \<and>
           sem_m (valid_m q') = sem_m (valid_m q) - 1 \<and>
           news h' = news h"
proof -
  from ch obtain r i j where f0:
    "reading_m q = Some r" "r < news h" "filling_m q = news h - 1"
    "reading_current_m q = (r, i)" "reading_end_m q = (r, entries_count)"
    "filling_current_m q = (news h - 1, j)" "filling_end_m q = (news h - 1, entries_count)"
    "i \<le> entries_count" "j \<le> entries_count"
    and pgs0: "\<forall>a. r \<le> a \<and> a < news h \<longrightarrow>
       (\<exists>pg. pages h a = Some pg \<and> length (entries pg) = entries_count \<and>
            next pg = (if Suc a < news h then Some (Suc a) else None))"
    and cnt0: "i + sem_m (valid_m q) = entries_count * (news h - 1 - r) + j"
    by (rule chainedE)
  obtain m where n: "news h = Suc m" using f0(2) by (cases "news h") auto
  have f: "reading_m q = Some r" "r \<le> m" "filling_m q = m"
    "reading_current_m q = (r, i)" "reading_end_m q = (r, entries_count)"
    "filling_current_m q = (m, j)" "filling_end_m q = (m, entries_count)"
    "i \<le> entries_count" "j \<le> entries_count"
    and cnt: "i + sem_m (valid_m q) = entries_count * (m - r) + j"
    using f0 cnt0 by (simp_all add: n)
  have pgs: "\<exists>pg. pages h a = Some pg \<and> length (entries pg) = entries_count \<and>
            next pg = (if a < m then Some (Suc a) else None)"
    if "r \<le> a" "a \<le> m" for a
    using pgs0 that by (simp add: n)
  obtain k where k: "sem_m (valid_m q) = Suc k" using pos by (cases "sem_m (valid_m q)") auto
  let ?v = "(valid_m q)\<lparr>sem_m := k\<rparr>"
  have ec: "0 < entries_count" by (simp add: entries_count_def)
  obtain pg where pg: "pages h r = Some pg" "length (entries pg) = entries_count"
    "next pg = (if r < m then Some (Suc r) else None)"
    using pgs [of r] f(2) by auto
  have per: "page_entries h r = entries pg"
    using pg by (simp add: page_entries_def)
  have slr: "slots h r = entries pg @ slots h (Suc r)"
    using slots_Cons [of r h] f(2) per by (simp add: n)
  show ?thesis
  proof (cases "i = entries_count")
    case False
    then have i: "i < entries_count" using f(8) by simp
    let ?q = "q\<lparr>valid_m := ?v, reading_current_m := (r, Suc i)\<rparr>"
    have res: "Consume_unbounded T E h q out = Some (Inr (h, ?q, entries pg ! i))"
      using False i pg nt
      by (simp add: Consume_unbounded_def WaitSemaphore_calm [OF E] k f)
    have ch': "chained h ?q"
    proof (rule chainedI [of _ r _ "Suc i" j])
      show "Suc i + sem_m (valid_m ?q) = entries_count * (news h - 1 - r) + j"
        using cnt k by (simp add: n)
      show "\<exists>pg. pages h a = Some pg \<and> length (entries pg) = entries_count \<and>
            next pg = (if Suc a < news h then Some (Suc a) else None)"
        if "r \<le> a" "a < news h" for a
        using pgs0 that by blast
    qed (use f i in \<open>simp_all add: n\<close>)
    have "i < length (slots h r)" using slr i pg(2) by simp
    from take_drop_Cons [OF this, of k]
    have "pending_unbounded h q = entries pg ! i # pending_unbounded h ?q"
      using i pg(2) by (simp add: pending_unbounded_def f k slr nth_append)
    then show ?thesis
      using res ch' by (simp add: k)
  next
    case True
    have rm: "r < m"
    proof (rule ccontr)
      assume "\<not> r < m"
      then have "m - r = 0" by simp
      then show False using cnt True k f(9) by simp
    qed
    obtain pg1 where pg1: "pages h (Suc r) = Some pg1" "length (entries pg1) = entries_count"
      using pgs [of "Suc r"] rm by auto
    let ?h = "delete_page r h"
    let ?q = "q\<lparr>valid_m := ?v, reading_m := Some (Suc r),
                reading_current_m := (Suc r, Suc 0),
                reading_end_m := (Suc r, entries_count)\<rparr>"
    have res: "Consume_unbounded T E h q out = Some (Inr (?h, ?q, entries pg1 ! 0))"
      using True pg pg1 nt rm ec
      by (simp add: Consume_unbounded_def WaitSemaphore_calm [OF E] k f SetReading_def
            delete_page_def)
    have ch': "chained ?h ?q"
    proof (rule chainedI [of _ "Suc r" _ "Suc 0" j])
      have "m - r = Suc (m - Suc r)" using rm by simp
      then show "Suc 0 + sem_m (valid_m ?q) = entries_count * (news ?h - 1 - Suc r) + j"
        using cnt k True by (simp add: n delete_page_def)
      show "\<exists>pg. pages ?h a = Some pg \<and> length (entries pg) = entries_count \<and>
            next pg = (if Suc a < news ?h then Some (Suc a) else None)"
        if "Suc r \<le> a" "a < news ?h" for a
        using pgs0 that by (simp add: delete_page_def)
    qed (use f rm ec in \<open>simp_all add: n delete_page_def\<close>)
    have s1: "slots ?h (Suc r) = slots h (Suc r)"
      by (rule slots_cong) (simp_all add: delete_page_def page_entries_def)
    have d: "drop entries_count (slots h r) = slots h (Suc r)"
      using slr pg(2) by simp
    have "slots h (Suc r) = entries pg1 @ slots h (Suc (Suc r))"
      using slots_Cons [of "Suc r" h] rm pg1 by (simp add: n page_entries_def)
    then have nz: "0 < length (slots h (Suc r))" and x0: "slots h (Suc r) ! 0 = entries pg1 ! 0"
      using pg1(2) ec by (simp_all add: nth_append)
    have "pending_unbounded h q = take (Suc k) (slots h (Suc r))"
      by (simp add: pending_unbounded_def f k True d)
    also have "\<dots> = slots h (Suc r) ! 0 # take k (drop (Suc 0) (slots h (Suc r)))"
      using take_drop_Cons [OF nz, of k] by simp
    also have "\<dots> = entries pg1 ! 0 # pending_unbounded ?h ?q"
      by (simp add: pending_unbounded_def s1 x0)
    finally have "pending_unbounded h q = entries pg1 ! 0 # pending_unbounded ?h ?q" .
    then show ?thesis
      using res ch' by (simp add: k delete_page_def)
  qed
qed

lemma UnboundedSingleQueue_fresh:
  assumes "UnboundedSingleQueue T ev h0 = Inr (h, q)"
  shows "h = h0\<lparr>pages := (pages h0)(news h0 \<mapsto> UnboundedPage T), news := Suc (news h0)\<rparr>"
    and "q = \<lparr>valid_m = \<lparr>sem_m = 0\<rparr>, filling_m = news h0, reading_m = Some (news h0),
              filling_current_m = (news h0, 0), filling_end_m = (news h0, entries_count),
              reading_current_m = (news h0, 0), reading_end_m = (news h0, entries_count)\<rparr>"
  using assms
  by (auto simp: UnboundedSingleQueue_def new_UnboundedPage_def SetFilling_def SetReading_def
        split: sum.splits dest!: Semaphore_Inr)

lemma UnboundedSingleQueue_chained:
  assumes "UnboundedSingleQueue T ev h0 = Inr (h, q)"
  shows "chained h q" and "pending_unbounded h q = []" and "sem_m (valid_m q) = 0"
proof -
  note f = UnboundedSingleQueue_fresh [OF assms]
  show "chained h q"
    unfolding f
    by (rule chainedI [of _ "news h0" _ 0 0])
       (auto simp: UnboundedPage_def entries_count_def)
  show "pending_unbounded h q = []" "sem_m (valid_m q) = 0"
    unfolding f by (simp_all add: pending_unbounded_def)
qed

lemma admits_unbounded_prefixes:
  "admits_unbounded filled cs \<longleftrightarrow>
     (\<forall>n\<le>length cs. consumes (take n cs) \<le> filled + length (produced (take n cs)))"
proof (induction cs arbitrary: filled)
  case Nil
  then show ?case by simp
next
  case (Cons c cs)
  show ?case
  proof (cases c)
    case (ProduceCall E v)
    then show ?thesis
      using Cons.IH [of "Suc filled"] by (simp add: all_le_Suc_split)
  next
    case (ConsumeCall E)
    show ?thesis
    proof (cases filled)
      case 0
      have "\<not> consumes (take 1 (c # cs)) \<le> filled + length (produced (take 1 (c # cs)))"
        using ConsumeCall 0 by simp
      then have "\<not> (\<forall>n\<le>length (c # cs).
          consumes (take n (c # cs)) \<le> filled + length (produced (take n (c # cs))))"
        by (metis One_nat_def Suc_le_mono le0 length_Cons)
      then show ?thesis using ConsumeCall 0 by simp
    next
      case (Suc f)
      then show ?thesis
        using Cons.IH [of f] ConsumeCall by (simp add: all_le_Suc_split)
    qed
  qed
qed

lemma in_order_admits: "in_order cs \<longleftrightarrow> admits_unbounded 0 cs"
  by (simp add: in_order_def admits_unbounded_prefixes)

lemma run_unbounded_fifo:
  assumes "nothrow T"
  shows "chained h q \<Longrightarrow> \<forall>c\<in>set cs. calm (call_env c) \<Longrightarrow>
         admits_unbounded (sem_m (valid_m q)) cs \<Longrightarrow>
         \<exists>h' q'. run_unbounded T h q cs =
                   Some (Inr (h', q', take (consumes cs) (pending_unbounded h q @ produced cs))) \<and>
              chained h' q' \<and>
              pending_unbounded h' q' = drop (consumes cs) (pending_unbounded h q @ produced cs) \<and>
              sem_m (valid_m q') + consumes cs = sem_m (valid_m q) + length (produced cs)"
proof (induction cs arbitrary: h q)
  case Nil
  then show ?case by simp
next
  case (Cons c cs)
  have nt: "assign_throws T d v = None" for d v
    using assms by (simp add: nothrow_def)
  show ?case
  proof (cases c)
    case (ProduceCall E v)
    have E: "calm E" using Cons.prems(2) ProduceCall by simp
    from Produce_unbounded_step [OF Cons.prems(1) E nt, of v]
    obtain h1 q1 where s: "Produce_unbounded T E h q v = Inr (h1, q1)" "chained h1 q1"
      "pending_unbounded h1 q1 = pending_unbounded h q @ [v]"
      "sem_m (valid_m q1) = Suc (sem_m (valid_m q))"
      by blast
    have "admits_unbounded (sem_m (valid_m q1)) cs"
      using Cons.prems(3) ProduceCall s(4) by simp
    from Cons.IH [OF s(2) _ this] Cons.prems(2)
    obtain h' q' where r:
      "run_unbounded T h1 q1 cs =
         Some (Inr (h', q', take (consumes cs) (pending_unbounded h1 q1 @ produced cs)))"
      "chained h' q'"
      "pending_unbounded h' q' = drop (consumes cs) (pending_unbounded h1 q1 @ produced cs)"
      "sem_m (valid_m q') + consumes cs = sem_m (valid_m q1) + length (produced cs)"
      by auto
    have app: "pending_unbounded h1 q1 @ produced cs = pending_unbounded h q @ produced (c # cs)"
      using s(3) ProduceCall by simp
    have "run_unbounded T h q (c # cs) = run_unbounded T h1 q1 cs"
      using s(1) ProduceCall by simp
    moreover have "consumes (c # cs) = consumes cs" "length (produced (c # cs)) = Suc (length (produced cs))"
      using ProduceCall by simp_all
    ultimately show ?thesis
      using r s(4) unfolding app
      by (intro exI [of _ h'] exI [of _ q']) (simp del: produced.simps)
  next
    case (ConsumeCall E)
    have E: "calm E" using Cons.prems(2) ConsumeCall by simp
    have pos: "0 < sem_m (valid_m q)" and rest: "admits_unbounded (sem_m (valid_m q) - 1) cs"
      using Cons.prems(3) ConsumeCall by simp_all
    from Consume_unbounded_step [OF Cons.prems(1) E pos nt, of "dflt T"]
    obtain h1 q1 x where s: "Consume_unbounded T E h q (dflt T) = Some (Inr (h1, q1, x))"
      "chained h1 q1" "pending_unbounded h q = x # pending_unbounded h1 q1"
      "sem_m (valid_m q1) = sem_m (valid_m q) - 1"
      by blast
    have "admits_unbounded (sem_m (valid_m q1)) cs"
      using rest s(4) by simp
    from Cons.IH [OF s(2) _ this] Cons.prems(2)
    obtain h' q' where r:
      "run_unbounded T h1 q1 cs =
         Some (Inr (h', q', take (consumes cs) (pending_unbounded h1 q1 @ produced cs)))"
      "chained h' q'"
      "pending_unbounded h' q' = drop (consumes cs) (pending_unbounded h1 q1 @ produced cs)"
      "sem_m (valid_m q') + consumes cs = sem_m (valid_m q1) + length (produced cs)"
      by auto
    have run: "run_unbounded T h q (c # cs) =
                 Some (Inr (h', q', x # take (consumes cs) (pending_unbounded h1 q1 @ produced cs)))"
      using s(1) r(1) ConsumeCall by simp
    have "pending_unbounded h q @ produced (c # cs) = x # (pending_unbounded h1 q1 @ produced cs)"
      using s(3) ConsumeCall by simp
    moreover have "consumes (c # cs) = Suc (consumes cs)" "produced (c # cs) = produced cs"
      using ConsumeCall by simp_all
    ultimately show ?thesis
      using r(2-4) s(4) pos run
      by (intro exI [of _ h'] exI [of _ q']) (simp del: produced.simps)
  qed
qed

lemma run_unbounded_admits:
  assumes "nothrow T"
  shows "\<forall>c\<in>set cs. calm (call_env c) \<Longrightarrow> run_unbounded T h q cs = Some (Inr res) \<Longrightarrow>
         chained h q \<Longrightarrow> admits_unbounded (sem_m (valid_m q)) cs"
proof (induction cs arbitrary: h q res)
  case Nil
  then show ?case by simp
next
  case (Cons c cs)
  have nt: "assign_throws T d v = None" for d v
    using assms by (simp add: nothrow_def)
  show ?case
  proof (cases c)
    case (ProduceCall E v)
    have E: "calm E" using Cons.prems(1) ProduceCall by simp
    from Produce_unbounded_step [OF Cons.prems(3) E nt, of v]
    obtain h1 q1 where s: "Produce_unbounded T E h q v = Inr (h1, q1)" "chained h1 q1"
      "sem_m (valid_m q1) = Suc (sem_m (valid_m q))"
      by blast
    have "run_unbounded T h1 q1 cs = Some (Inr res)"
      using Cons.prems(2) s(1) ProduceCall by simp
    from Cons.IH [OF _ this s(2)] Cons.prems(1)
    show ?thesis using s(3) ProduceCall by simp
  next
    case (ConsumeCall E)
    have E: "calm E" using Cons.prems(1) ConsumeCall by simp
    have pos: "0 < sem_m (valid_m q)"
    proof (rule ccontr)
      assume "\<not> 0 < sem_m (valid_m q)"
      then have "Consume_unbounded T E h q (dflt T) = None"
        by (intro Consume_unbounded_blocks [OF E]) simp
      then show False using Cons.prems(2) ConsumeCall by simp
    qed
    from Consume_unbounded_step [OF Cons.prems(3) E pos nt, of "dflt T"]
    obtain h1 q1 x where s: "Consume_unbounded T E h q (dflt T) = Some (Inr (h1, q1, x))"
      "chained h1 q1" "sem_m (valid_m q1) = sem_m (valid_m q) - 1"
      by blast
    obtain res' where "run_unbounded T h1 q1 cs = Some (Inr res')"
      using Cons.prems(2) s(1) ConsumeCall by (auto split: option.splits sum.splits)
    from Cons.IH [OF _ this s(2)] Cons.prems(1)
    show ?thesis using s(3) pos ConsumeCall by simp
  qed
qed

lemma admits_unbounded_producers: "consumes cs = 0 \<Longrightarrow> admits_unbounded k cs"
  by (induction k cs rule: admits_unbounded.induct) simp_all

lemma admits_unbounded_consumers:
  "produced cs = [] \<Longrightarrow> length cs \<le> k \<Longrightarrow> admits_unbounded k cs"
  by (induction k cs rule: admits_unbounded.induct) simp_all

lemma consumers_only: "produced cs = [] \<Longrightarrow> consumes cs = length cs"
  by (induction cs rule: produced.induct) simp_all

lemma Produce_unbounded_ignores_waits:
  "Produce_unbounded T (E\<lparr>wait_calls := w\<rparr>) h q v = Produce_unbounded T E h q v"
proof -
  have p: "post_call (E\<lparr>wait_calls := w\<rparr>) = post_call E" by simp
  show ?thesis unfolding Produce_unbounded_def p ..
qed

lemma nat_unbounded_fresh:
  "UnboundedSingleQueue nat_element Succeeds empty_store = Inr (nat_store, nat_unbounded)"
  by (simp add: UnboundedSingleQueue_def Semaphore_def sem_init_def new_UnboundedPage_def
        SetFilling_def SetReading_def empty_store_def nat_store_def nat_unbounded_def)

lemma two_then_one_run:
  "\<exists>h' q'. run_unbounded nat_element nat_store nat_unbounded two_then_one = Some (Inr (h', q', [1]))"
proof -
  have c: "\<forall>c\<in>set two_then_one. calm (call_env c)"
    by (simp add: two_then_one_def calm_quiet calm_stormy)
  have "admits_unbounded (sem_m (valid_m nat_unbounded)) two_then_one"
    by (simp add: two_then_one_def nat_unbounded_def)
  from run_unbounded_fifo [OF nothrow_nat_element
      UnboundedSingleQueue_chained(1) [OF nat_unbounded_fresh] c this]
  show ?thesis
    using UnboundedSingleQueue_chained(2) [OF nat_unbounded_fresh]
    by (auto simp: two_then_one_def)
qed

text \<open>
  C5. \<open>UnboundedSingleQueue::Produce\<close> never waits on a semaphore: what the environment
  would do with a wait has no influence on it, and on a fresh queue any number of
  \<open>Produce\<close> calls return, however many items are pending. A consumer that starts after
  these \<open>n\<close> calls receives all \<open>n\<close> items, in the order produced, from \<open>n\<close> successive
  \<open>Consume\<close> calls. (The element type does not throw and the semaphore calls do not
  fail.)
\<close>

theorem unbounded_producer_never_blocks:
  assumes "UnboundedSingleQueue T ev h0 = Inr (h, q)" and "nothrow T"
    and "\<forall>c\<in>set ps. calm (call_env c)" and "\<forall>c\<in>set ks. calm (call_env c)"
    and "consumes ps = 0" and "produced ks = []" and "length ks = length ps"
  shows "(\<exists>h1 q1. run_unbounded T h q ps = Some (Inr (h1, q1, [])) \<and>
           (\<exists>h2 q2. run_unbounded T h1 q1 ks = Some (Inr (h2, q2, produced ps))))
       \<and> Produce_unbounded T (E\<lparr>wait_calls := w\<rparr>) h' q' v = Produce_unbounded T E h' q' v"
proof -
  note c0 = UnboundedSingleQueue_chained [OF assms(1)]
  from run_unbounded_fifo [OF assms(2) c0(1) assms(3) admits_unbounded_producers [OF assms(5)]]
  obtain h1 q1 where p: "run_unbounded T h q ps = Some (Inr (h1, q1, []))" "chained h1 q1"
    "pending_unbounded h1 q1 = produced ps" "sem_m (valid_m q1) = length (produced ps)"
    using c0(2,3) assms(5) by auto
  have "length ks \<le> sem_m (valid_m q1)"
    using p(4) assms(5,7) by (simp add: produced_only)
  from run_unbounded_fifo [OF assms(2) p(2) assms(4) admits_unbounded_consumers [OF assms(6) this]]
  obtain h2 q2 where
    "run_unbounded T h1 q1 ks = Some (Inr (h2, q2, take (consumes ks) (pending_unbounded h1 q1 @ produced ks)))"
    by blast
  moreover have "take (consumes ks) (pending_unbounded h1 q1 @ produced ks) = produced ps"
    using p(3) assms(5,6,7) by (simp add: consumers_only produced_only)
  ultimately show ?thesis
    using p(1) by (simp add: Produce_unbounded_ignores_waits)
qed

theorem unbounded_producer_never_blocks_witness:
  "UnboundedSingleQueue nat_element Succeeds empty_store = Inr (nat_store, nat_unbounded)
   \<and> (\<exists>h1 q1. run_unbounded nat_element nat_store nat_unbounded three_producers
                  = Some (Inr (h1, q1, [])) \<and>
         (\<exists>h2 q2. run_unbounded nat_element h1 q1 three_consumers = Some (Inr (h2, q2, [1, 2, 3]))))"
proof -
  have c: "\<forall>c\<in>set three_producers. calm (call_env c)" "\<forall>c\<in>set three_consumers. calm (call_env c)"
    by (simp_all add: three_producers_def three_consumers_def calm_quiet calm_stormy)
  have s: "consumes three_producers = 0" "produced three_consumers = []"
    "length three_consumers = length three_producers"
    by (simp_all add: three_producers_def three_consumers_def)
  show ?thesis
    using unbounded_producer_never_blocks [OF nat_unbounded_fresh nothrow_nat_element c s]
      nat_unbounded_fresh
    by (simp add: three_producers_def)
qed

text \<open>
  C9. The counter of \<open>valid_\<close> is 0 at construction, and after any sequence of \<open>n\<close>
  \<open>Produce\<close> and \<open>m\<close> \<open>Consume\<close> calls that have returned, \<open>m \<le> n\<close> and the counter is
  \<open>n - m\<close>, the number of items produced and not yet consumed.
\<close>

theorem unbounded_valid_counts:
  assumes "UnboundedSingleQueue T ev h0 = Inr (h, q)" and "nothrow T"
    and "\<forall>c\<in>set cs. calm (call_env c)"
    and "run_unbounded T h q cs = Some (Inr (h', q', outs))"
  shows "sem_m (valid_m q) = 0
       \<and> consumes cs \<le> length (produced cs)
       \<and> sem_m (valid_m q') = length (produced cs) - consumes cs"
proof -
  note c0 = UnboundedSingleQueue_chained [OF assms(1)]
  have a: "admits_unbounded (sem_m (valid_m q)) cs"
    using run_unbounded_admits [OF assms(2,3,4) c0(1)] .
  from run_unbounded_fifo [OF assms(2) c0(1) assms(3) a] assms(4)
  have "sem_m (valid_m q') + consumes cs = sem_m (valid_m q) + length (produced cs)"
    by auto
  then show ?thesis using c0(3) by simp
qed

theorem unbounded_valid_counts_witness:
  "UnboundedSingleQueue nat_element Succeeds empty_store = Inr (nat_store, nat_unbounded)
   \<and> (\<exists>h' q'. run_unbounded nat_element nat_store nat_unbounded two_then_one
                  = Some (Inr (h', q', [1])) \<and>
         sem_m (valid_m nat_unbounded) = 0 \<and> sem_m (valid_m q') = 1)"
proof -
  have c: "\<forall>c\<in>set two_then_one. calm (call_env c)"
    by (simp add: two_then_one_def calm_quiet calm_stormy)
  from two_then_one_run obtain h' q' where
    r: "run_unbounded nat_element nat_store nat_unbounded two_then_one = Some (Inr (h', q', [1]))"
    by blast
  from unbounded_valid_counts [OF nat_unbounded_fresh nothrow_nat_element c r]
  have "sem_m (valid_m nat_unbounded) = 0 \<and> sem_m (valid_m q') = 1"
    by (simp add: two_then_one_def)
  then show ?thesis using r nat_unbounded_fresh by blast
qed

lemma produce_only_same_page:
  assumes "nothrow T"
  shows "chained h q \<Longrightarrow> \<forall>c\<in>set cs. calm (call_env c) \<Longrightarrow> consumes cs = 0 \<Longrightarrow>
         snd (filling_current_m q) + length cs \<le> entries_count \<Longrightarrow>
         \<exists>h' q'. run_unbounded T h q cs = Some (Inr (h', q', [])) \<and> news h' = news h \<and>
                chained h' q' \<and>
                snd (filling_current_m q') = snd (filling_current_m q) + length cs"
proof (induction cs arbitrary: h q)
  case Nil
  then show ?case by simp
next
  case (Cons c cs)
  have nt: "assign_throws T d v = None" for d v
    using assms by (simp add: nothrow_def)
  show ?case
  proof (cases c)
    case (ProduceCall E v)
    have E: "calm E" using Cons.prems(2) ProduceCall by simp
    have "snd (filling_end_m q) = entries_count"
      using Cons.prems(1) by (auto simp: chained_def)
    then have ne: "filling_current_m q \<noteq> filling_end_m q"
      using Cons.prems(4) by auto
    from Produce_unbounded_step [OF Cons.prems(1) E nt, of v] ne
    obtain h1 q1 where s: "Produce_unbounded T E h q v = Inr (h1, q1)" "chained h1 q1"
      "news h1 = news h"
      "filling_current_m q1 = (fst (filling_current_m q), Suc (snd (filling_current_m q)))"
      by auto
    have "consumes cs = 0" "snd (filling_current_m q1) + length cs \<le> entries_count"
      using Cons.prems(3,4) ProduceCall s(4) by simp_all
    from Cons.IH [OF s(2) _ this] Cons.prems(2)
    obtain h' q' where "run_unbounded T h1 q1 cs = Some (Inr (h', q', []))" "news h' = news h1"
      "chained h' q'" "snd (filling_current_m q') = snd (filling_current_m q1) + length cs"
      by auto
    then show ?thesis
      using s ProduceCall by (intro exI [of _ h'] exI [of _ q']) simp
  next
    case (ConsumeCall E)
    then show ?thesis using Cons.prems(3) by simp
  qed
qed

text \<open>
  C10. A page holds exactly 1023 slots. The constructor allocates exactly one page, which
  is both the filling and the reading page. \<open>Produce\<close> allocates a page exactly when the
  filling cursor stands at offset 1023, that is when 1023 items have been written to the
  filling page. So producing \<open>n \<le> 1023\<close> items from a fresh queue allocates no second
  page: the number of pages allocated stays one more than before the construction.
\<close>

theorem unbounded_page_allocation:
  "length (entries (UnboundedPage T)) = 1023
   \<and> (UnboundedSingleQueue T ev h0 = Inr (h, q) \<longrightarrow>
        news h = Suc (news h0) \<and> filling_m q = news h0 \<and> reading_m q = Some (news h0) \<and>
        pages h = (pages h0)(news h0 \<mapsto> UnboundedPage T))
   \<and> (chained h1 q1 \<and> calm E \<and> (\<forall>d. assign_throws T d v = None) \<longrightarrow>
        (\<exists>h2 q2. Produce_unbounded T E h1 q1 v = Inr (h2, q2) \<and>
           news h2 = (if snd (filling_current_m q1) = 1023 then Suc (news h1) else news h1)))
   \<and> (UnboundedSingleQueue T ev h0 = Inr (h, q) \<and> nothrow T \<and>
        (\<forall>c\<in>set cs. calm (call_env c)) \<and> consumes cs = 0 \<and> length cs \<le> 1023 \<longrightarrow>
        (\<exists>h' q'. run_unbounded T h q cs = Some (Inr (h', q', [])) \<and> news h' = Suc (news h0) \<and>
           chained h' q' \<and> snd (filling_current_m q') = length cs))"
proof -
  have a: "length (entries (UnboundedPage T)) = 1023"
    by (simp add: UnboundedPage_def)
  have b: "news h = Suc (news h0) \<and> filling_m q = news h0 \<and> reading_m q = Some (news h0) \<and>
        pages h = (pages h0)(news h0 \<mapsto> UnboundedPage T)"
    if "UnboundedSingleQueue T ev h0 = Inr (h, q)"
    unfolding UnboundedSingleQueue_fresh [OF that] by simp
  have c: "\<exists>h2 q2. Produce_unbounded T E h1 q1 v = Inr (h2, q2) \<and>
           news h2 = (if snd (filling_current_m q1) = 1023 then Suc (news h1) else news h1)"
    if ch: "chained h1 q1" and E: "calm E" and nt: "\<forall>d. assign_throws T d v = None"
  proof -
    have "fst (filling_current_m q1) = fst (filling_end_m q1)" "snd (filling_end_m q1) = 1023"
      using ch by (auto simp: chained_def entries_count_def)
    then have "filling_current_m q1 = filling_end_m q1 \<longleftrightarrow> snd (filling_current_m q1) = 1023"
      by (metis prod.collapse)
    then show ?thesis
      using Produce_unbounded_step [OF ch E, of T v] nt by auto
  qed
  have d: "\<exists>h' q'. run_unbounded T h q cs = Some (Inr (h', q', [])) \<and> news h' = Suc (news h0) \<and>
           chained h' q' \<and> snd (filling_current_m q') = length cs"
    if f: "UnboundedSingleQueue T ev h0 = Inr (h, q)" and nt: "nothrow T"
      and cm: "\<forall>c\<in>set cs. calm (call_env c)" and p: "consumes cs = 0" and l: "length cs \<le> 1023"
  proof -
    have "snd (filling_current_m q) + length cs \<le> entries_count"
      unfolding UnboundedSingleQueue_fresh(2) [OF f] using l by (simp add: entries_count_def)
    from produce_only_same_page [OF nt UnboundedSingleQueue_chained(1) [OF f] cm p this]
    show ?thesis
      unfolding UnboundedSingleQueue_fresh [OF f] by simp
  qed
  show ?thesis using a b c d by blast
qed

theorem unbounded_page_allocation_witness:
  "UnboundedSingleQueue nat_element Succeeds empty_store = Inr (nat_store, nat_unbounded)
   \<and> news nat_store = 1 \<and> filling_m nat_unbounded = 0 \<and> reading_m nat_unbounded = Some 0
   \<and> (\<exists>h' q'. run_unbounded nat_element nat_store nat_unbounded page_of_sevens
                  = Some (Inr (h', q', [])) \<and> news h' = 1 \<and> snd (filling_current_m q') = 1023 \<and>
         (\<exists>h2 q2. Produce_unbounded nat_element quiet h' q' 8 = Inr (h2, q2) \<and> news h2 = 2))
   \<and> (\<exists>h2 q2. Produce_unbounded nat_element quiet nat_store nat_unbounded 8 = Inr (h2, q2) \<and>
         news h2 = 1)"
proof -
  note t = unbounded_page_allocation [where T = nat_element and ev = Succeeds
      and ?h0.0 = empty_store and h = nat_store and q = nat_unbounded and E = quiet and v = 8]
  have nt: "\<forall>d. assign_throws nat_element d 8 = None"
    by (simp add: nat_element_def)
  have "consumes (replicate n (ProduceCall quiet (7::nat))) = 0" for n
    by (induction n) simp_all
  then have c: "\<forall>c\<in>set page_of_sevens. calm (call_env c)" "consumes page_of_sevens = 0"
    "length page_of_sevens \<le> 1023"
    by (simp_all add: page_of_sevens_def calm_quiet)
  from t [where cs = page_of_sevens and ?h1.0 = nat_store and ?q1.0 = nat_unbounded]
    nat_unbounded_fresh nothrow_nat_element c
  have "\<exists>h' q'. run_unbounded nat_element nat_store nat_unbounded page_of_sevens
                  = Some (Inr (h', q', [])) \<and> news h' = Suc (news (empty_store :: nat store)) \<and>
               chained h' q' \<and> snd (filling_current_m q') = length page_of_sevens"
    by blast
  then obtain h' q' where r: "run_unbounded nat_element nat_store nat_unbounded page_of_sevens
                  = Some (Inr (h', q', []))" "news h' = 1" "chained h' q'"
      "snd (filling_current_m q') = 1023"
    by (auto simp: empty_store_def page_of_sevens_def)
  from t [where ?h1.0 = h' and ?q1.0 = q'] r(2,3,4) calm_quiet nt
  have n2: "\<exists>h2 q2. Produce_unbounded nat_element quiet h' q' 8 = Inr (h2, q2) \<and> news h2 = 2"
    by (simp add: numeral_2_eq_2)
  from t [where ?h1.0 = nat_store and ?q1.0 = nat_unbounded]
    UnboundedSingleQueue_chained(1) [OF nat_unbounded_fresh] calm_quiet nt
  have n1: "\<exists>h2 q2. Produce_unbounded nat_element quiet nat_store nat_unbounded 8 = Inr (h2, q2) \<and>
         news h2 = 1"
    by (simp add: nat_unbounded_def nat_store_def)
  show ?thesis
    using r n2 n1 nat_unbounded_fresh
    by (auto simp: nat_store_def nat_unbounded_def)
qed

subsection \<open>PCQueue: the accounting of slots\<close>

lemma filter_update_count:
  "i < length ts \<Longrightarrow>
   length (filter P (ts[i := p])) + (if P (ts ! i) then 1 else 0)
     = length (filter P ts) + (if P p then 1 else 0)"
proof (induction ts arbitrary: i)
  case Nil
  then show ?case by simp
next
  case (Cons t ts)
  then show ?case by (cases i) auto
qed

lemma in_flight_become:
  assumes "i < length (threads s)"
  shows "in_flight (s\<lparr>threads := (threads s)[i := p]\<rparr>) + (if holds_slot (threads s ! i) then 1 else 0)
           = in_flight s + (if holds_slot p then 1 else 0)"
  using filter_update_count [OF assms, of holds_slot p] by (simp add: in_flight_def)

lemma wait_quiet:
  "WaitSemaphore (wait_calls quiet) s =
     (if sem_m s = 0 then None else Some (Inr (s\<lparr>sem_m := sem_m s - 1\<rparr>)))"
  by (rule WaitSemaphore_calm [OF calm_quiet])

lemma post_quiet: "post (post_call quiet) s = Inr (s\<lparr>sem_m := Suc (sem_m s)\<rparr>)"
  by (rule post_calm [OF calm_quiet])

lemma move_total:
  assumes "move T s i = Some s'"
  shows "sem_m (empty_m (queue s')) + sem_m (used_m (queue s')) + in_flight s'
           = sem_m (empty_m (queue s)) + sem_m (used_m (queue s)) + in_flight s"
proof -
  have i: "i < length (threads s)"
    using assms by (auto simp: move_def Let_def wait_quiet post_quiet in_flight_def with_slot_def
            split: if_splits prod.splits option.splits sum.splits)
  note b = in_flight_become [OF i]
  show ?thesis
  proof (cases "threads s ! i")
    case Idle
    then show ?thesis using assms i by (simp add: move_def)
  next
    case (P_wait k v)
    then show ?thesis using assms i b [of "P_lock k v"]
      by (auto simp: move_def Let_def wait_quiet post_quiet in_flight_def with_slot_def
            split: if_splits prod.splits option.splits sum.splits)
  next
    case (P_lock k v)
    then show ?thesis using assms i b [of "P_transfer k v"]
      by (auto simp: move_def Let_def wait_quiet post_quiet in_flight_def with_slot_def
            split: if_splits prod.splits option.splits sum.splits)
  next
    case (P_transfer k v)
    then show ?thesis using assms i b [of "P_advance"] b [of "P_catch e" for e]
      by (auto simp: move_def Let_def wait_quiet post_quiet in_flight_def with_slot_def
            split: if_splits prod.splits option.splits sum.splits)
  next
    case (P_catch e)
    then show ?thesis using assms i b [of "P_rethrow e"]
      by (auto simp: move_def Let_def wait_quiet post_quiet in_flight_def with_slot_def
            split: if_splits prod.splits option.splits sum.splits)
  next
    case (P_rethrow e)
    then show ?thesis using assms i b [of Idle]
      by (auto simp: move_def Let_def wait_quiet post_quiet in_flight_def with_slot_def
            split: if_splits prod.splits option.splits sum.splits)
  next
    case P_advance
    then show ?thesis using assms i b [of P_post]
      by (auto simp: move_def Let_def wait_quiet post_quiet in_flight_def with_slot_def
            split: if_splits prod.splits option.splits sum.splits)
  next
    case P_post
    then show ?thesis using assms i b [of Idle]
      by (auto simp: move_def Let_def wait_quiet post_quiet in_flight_def with_slot_def
            split: if_splits prod.splits option.splits sum.splits)
  next
    case (C_wait k v)
    then show ?thesis using assms i b [of "C_lock k v"]
      by (auto simp: move_def Let_def wait_quiet post_quiet in_flight_def with_slot_def
            split: if_splits prod.splits option.splits sum.splits)
  next
    case (C_lock k v)
    then show ?thesis using assms i b [of "C_transfer k v"]
      by (auto simp: move_def Let_def wait_quiet post_quiet in_flight_def with_slot_def
            split: if_splits prod.splits option.splits sum.splits)
  next
    case (C_transfer k v)
    then show ?thesis using assms i b [of "C_advance"] b [of "C_catch e" for e]
      by (auto simp: move_def Let_def wait_quiet post_quiet in_flight_def with_slot_def
            split: if_splits prod.splits option.splits sum.splits)
  next
    case (C_catch e)
    then show ?thesis using assms i b [of "C_rethrow e"]
      by (auto simp: move_def Let_def wait_quiet post_quiet in_flight_def with_slot_def
            split: if_splits prod.splits option.splits sum.splits)
  next
    case (C_rethrow e)
    then show ?thesis using assms i b [of Idle]
      by (auto simp: move_def Let_def wait_quiet post_quiet in_flight_def with_slot_def
            split: if_splits prod.splits option.splits sum.splits)
  next
    case C_advance
    then show ?thesis using assms i b [of C_post]
      by (auto simp: move_def Let_def wait_quiet post_quiet in_flight_def with_slot_def
            split: if_splits prod.splits option.splits sum.splits)
  next
    case C_post
    then show ?thesis using assms i b [of Idle]
      by (auto simp: move_def Let_def wait_quiet post_quiet in_flight_def with_slot_def
            split: if_splits prod.splits option.splits sum.splits)
  qed
qed

lemma fire_total:
  assumes "fire T s ev = Some s'"
  shows "sem_m (empty_m (queue s')) + sem_m (used_m (queue s')) + in_flight s'
           = sem_m (empty_m (queue s)) + sem_m (used_m (queue s)) + in_flight s"
proof (cases ev)
  case (CallProduce i k v)
  then have "i < length (threads s)" "threads s ! i = Idle"
    "s' = s\<lparr>threads := (threads s)[i := P_wait k v]\<rparr>"
    using assms by (auto simp: fire_def split: if_splits)
  then show ?thesis
    using in_flight_become [of i s "P_wait k v"] by simp
next
  case (CallConsume i k v)
  then have "i < length (threads s)" "threads s ! i = Idle"
    "s' = s\<lparr>threads := (threads s)[i := C_wait k v]\<rparr>"
    using assms by (auto simp: fire_def split: if_splits)
  then show ?thesis
    using in_flight_become [of i s "C_wait k v"] by simp
next
  case (Step i)
  then show ?thesis using assms move_total [of T s i s'] by (simp add: fire_def)
qed

lemma exec_total:
  "exec T s evs = Some s' \<Longrightarrow>
   sem_m (empty_m (queue s')) + sem_m (used_m (queue s')) + in_flight s'
     = sem_m (empty_m (queue s)) + sem_m (used_m (queue s)) + in_flight s"
proof (induction evs arbitrary: s)
  case Nil
  then show ?case by simp
next
  case (Cons ev evs)
  then obtain s1 where s1: "fire T s ev = Some s1" "exec T s1 evs = Some s'"
    by (auto split: option.splits)
  show ?case using Cons.IH [OF s1(2)] fire_total [OF s1(1)] by simp
qed

lemma in_flight_idle: "in_flight (idle_system q n) = 0"
  by (simp add: in_flight_def idle_system_def)

lemma Produce_returns_total:
  assumes "calm E" and "Produce T E q v = Some (Inr q')"
  shows "sem_m (empty_m q') + sem_m (used_m q') = sem_m (empty_m q) + sem_m (used_m q)"
  using assms
  by (auto simp: Produce_def WaitSemaphore_calm post_calm Let_def
        split: if_splits option.splits prod.splits)

lemma Consume_returns_total:
  assumes "calm E" and "Consume T E q out = Some (Inr (q', x))"
  shows "sem_m (empty_m q') + sem_m (used_m q') = sem_m (empty_m q) + sem_m (used_m q)"
  using assms
  by (auto simp: Consume_def WaitSemaphore_calm post_calm Let_def
        split: if_splits option.splits prod.splits)

lemma run_returns_total:
  "\<forall>c\<in>set cs. calm (call_env c) \<Longrightarrow> run T q cs = Some (Inr (q', outs)) \<Longrightarrow>
   sem_m (empty_m q') + sem_m (used_m q') = sem_m (empty_m q) + sem_m (used_m q)"
proof (induction cs arbitrary: q outs)
  case Nil
  then show ?case by simp
next
  case (Cons c cs)
  show ?case
  proof (cases c)
    case (ProduceCall E v)
    then obtain q1 where s: "Produce T E q v = Some (Inr q1)" "run T q1 cs = Some (Inr (q', outs))"
      using Cons.prems(2) by (auto split: option.splits sum.splits)
    have "calm E" using Cons.prems(1) ProduceCall by simp
    from Produce_returns_total [OF this s(1)] Cons.IH [OF _ s(2)] Cons.prems(1)
    show ?thesis by simp
  next
    case (ConsumeCall E)
    then obtain q1 x outs' where s: "Consume T E q (dflt T) = Some (Inr (q1, x))"
      "run T q1 cs = Some (Inr (q', outs'))"
      using Cons.prems(2)
      by (auto simp: Consume0_def split: option.splits sum.splits prod.splits)
    have "calm E" using Cons.prems(1) ConsumeCall by simp
    from Consume_returns_total [OF this s(1)] Cons.IH [OF _ s(2)] Cons.prems(1)
    show ?thesis by simp
  qed
qed

lemma PCQueue_counters:
  assumes "PCQueue T ev1 ev2 sz = Inr q0"
  shows "sem_m (empty_m q0) = unat sz mod 2 ^ 32" and "sem_m (used_m q0) = 0"
  unfolding PCQueue_fresh [OF assms] by simp_all

lemma Produce_alone:
  assumes "Produce T quiet q v = Some (Inr q')"
  shows "exec T (idle_system q 1) (produce_alone Copy v) = Some (idle_system q' 1)"
  using assms
  by (auto simp: produce_alone_def Produce_def idle_system_def fire_def move_def wait_quiet
        post_quiet Let_def produce_transfer_def with_slot_def
        split: if_splits option.splits prod.splits)

lemma Consume_alone:
  assumes "Consume T quiet q out = Some (Inr (q', x))"
  shows "exec T (idle_system q 1) (consume_alone Copy out) = Some (idle_system q' 1)"
  using assms
  by (auto simp: consume_alone_def Consume_def idle_system_def fire_def move_def wait_quiet
        post_quiet Let_def consume_transfer_def with_slot_def
        split: if_splits option.splits prod.splits)

lemma Produce_alone_throws:
  assumes "Produce T quiet q v = Some (Inl (e, q'))"
  shows "exec T (idle_system q 1) (produce_alone Copy v) = Some (idle_system q' 1)"
  using assms
  by (auto simp: produce_alone_def Produce_def idle_system_def fire_def move_def wait_quiet
        post_quiet Let_def produce_transfer_def with_slot_def
        split: if_splits option.splits prod.splits)

lemma ProduceSwap_alone:
  assumes "ProduceSwap T quiet q v = Some (Inr (q', v')) \<or> ProduceSwap T quiet q v = Some (Inl (e, q', v'))"
  shows "exec T (idle_system q 1) (produce_alone Swap v) = Some (idle_system q' 1)"
  using assms
  by (auto simp: produce_alone_def ProduceSwap_def idle_system_def fire_def move_def wait_quiet
        post_quiet Let_def produce_transfer_def with_slot_def
        split: if_splits option.splits prod.splits)

lemma Consume_alone_throws:
  assumes "Consume T quiet q out = Some (Inl (e, q', x))"
  shows "exec T (idle_system q 1) (consume_alone Copy out) = Some (idle_system q' 1)"
  using assms
  by (auto simp: consume_alone_def Consume_def idle_system_def fire_def move_def wait_quiet
        post_quiet Let_def consume_transfer_def with_slot_def
        split: if_splits option.splits prod.splits)

lemma ConsumeSwap_alone:
  assumes "ConsumeSwap T quiet q out = Some (Inr (q', x)) \<or> ConsumeSwap T quiet q out = Some (Inl (e, q', x))"
  shows "exec T (idle_system q 1) (consume_alone Swap out) = Some (idle_system q' 1)"
  using assms
  by (auto simp: consume_alone_def ConsumeSwap_def idle_system_def fire_def move_def wait_quiet
        post_quiet Let_def consume_transfer_def with_slot_def
        split: if_splits option.splits prod.splits)

lemma both_reserved_exec:
  "exec nat_element (idle_system nat_fresh2 2) both_reserved =
     Some \<lparr>queue = nat_fresh2\<lparr>empty_m := \<lparr>sem_m = 0\<rparr>\<rparr>,
           produce_at_mutex_m = False, consume_at_mutex_m = False,
           threads = [P_lock Copy 5, P_lock Copy 6]\<rparr>"
  by (simp add: both_reserved_def idle_system_def fire_def move_def wait_quiet Let_def
        nat_fresh2_def numeral_2_eq_2)

text \<open>
  The accounting of slots for a capacity below \<open>2 ^ 32\<close>, the range of the \<open>unsigned int\<close>
  from which \<open>empty_\<close> is constructed. The queue starts with the counter of \<open>empty_\<close> at the
  capacity and the counter of \<open>used_\<close> at 0. From then on, in every state that any number
  of threads reach by any interleaving of the steps of their operations, the counter of
  \<open>empty_\<close> plus the counter of \<open>used_\<close> plus the number of operations in flight that hold
  a reserved slot is the capacity; in particular the two counters add up to it after
  every sequence of \<open>Produce\<close> and \<open>Consume\<close> calls that have returned.
\<close>

lemma slot_accounting_in_range:
  "(PCQueue T ev1 ev2 sz = Inr q0 \<and> unat sz < 2 ^ 32 \<longrightarrow>
      sem_m (empty_m q0) = unat sz \<and> sem_m (used_m q0) = 0)
   \<and> (PCQueue T ev1 ev2 sz = Inr q0 \<and> unat sz < 2 ^ 32 \<and>
       exec T (idle_system q0 n) evs = Some s \<longrightarrow>
      sem_m (empty_m (queue s)) + sem_m (used_m (queue s)) + in_flight s = unat sz)
   \<and> (PCQueue T ev1 ev2 sz = Inr q0 \<and> unat sz < 2 ^ 32 \<and>
       (\<forall>c\<in>set cs. calm (call_env c)) \<and> run T q0 cs = Some (Inr (q, outs)) \<longrightarrow>
      sem_m (empty_m q) + sem_m (used_m q) = unat sz)"
proof -
  have a: "sem_m (empty_m q0) = unat sz \<and> sem_m (used_m q0) = 0"
    if "PCQueue T ev1 ev2 sz = Inr q0" "unat sz < 2 ^ 32"
    using PCQueue_counters [OF that(1)] that(2) by simp
  have b: "sem_m (empty_m (queue s)) + sem_m (used_m (queue s)) + in_flight s = unat sz"
    if "PCQueue T ev1 ev2 sz = Inr q0" "unat sz < 2 ^ 32"
      "exec T (idle_system q0 n) evs = Some s"
    using exec_total [OF that(3)] a [OF that(1,2)]
    by (simp add: in_flight_idle) (simp add: idle_system_def)
  have c: "sem_m (empty_m q) + sem_m (used_m q) = unat sz"
    if "PCQueue T ev1 ev2 sz = Inr q0" "unat sz < 2 ^ 32"
      "\<forall>c\<in>set cs. calm (call_env c)" "run T q0 cs = Some (Inr (q, outs))"
    using run_returns_total [OF that(3,4)] a [OF that(1,2)] by simp
  show ?thesis using a b c by blast
qed

lemma slot_accounting_in_range_example:
  "PCQueue nat_element Succeeds Succeeds 2 = Inr nat_fresh2
   \<and> unat (2 :: 64 word) < 2 ^ 32
   \<and> sem_m (empty_m nat_fresh2) = 2 \<and> sem_m (used_m nat_fresh2) = 0
   \<and> (\<exists>s. exec nat_element (idle_system nat_fresh2 2) both_reserved = Some s \<and>
          in_flight s = 2 \<and> sem_m (empty_m (queue s)) = 0 \<and> sem_m (used_m (queue s)) = 0)
   \<and> (\<exists>q. run nat_element nat_fresh2 three_through_two = Some (Inr (q, [1, 2, 3])) \<and>
          sem_m (empty_m q) + sem_m (used_m q) = 2)"
proof -
  note t = slot_accounting_in_range [where T = nat_element and ?ev1.0 = Succeeds
      and ?ev2.0 = Succeeds and sz = 2 and ?q0.0 = nat_fresh2]
  have c: "\<forall>c\<in>set three_through_two. calm (call_env c)"
    by (simp add: three_through_two_def calm_quiet calm_stormy)
  have "admits (sem_m (empty_m nat_fresh2)) (sem_m (used_m nat_fresh2)) three_through_two"
    by (simp add: three_through_two_def nat_fresh2_def)
  from run_fifo [OF nothrow_nat_element PCQueue_consistent(1) [OF fresh2] c this]
  obtain q where q: "run nat_element nat_fresh2 three_through_two = Some (Inr (q, [1, 2, 3]))"
    using PCQueue_consistent(2) [OF fresh2] by (auto simp: three_through_two_def)
  have f: "in_flight \<lparr>queue = nat_fresh2\<lparr>empty_m := \<lparr>sem_m = 0\<rparr>\<rparr>,
           produce_at_mutex_m = False, consume_at_mutex_m = False,
           threads = [P_lock Copy 5, P_lock Copy (6::nat)]\<rparr> = 2"
    by (simp add: in_flight_def)
  show ?thesis
    using t [where n = 2 and evs = both_reserved and cs = three_through_two and q = q
        and outs = "[1, 2, 3]"] fresh2 c q both_reserved_exec f
    by (simp add: nat_fresh2_def)
qed

text \<open>
  C8. A \<open>PCQueue\<close> constructed with capacity \<open>k\<close> starts with the counter of \<open>empty_\<close> at \<open>k\<close>
  and the counter of \<open>used_\<close> at 0, and the two counters and the operations in flight that
  hold a reserved slot add up to \<open>k\<close>. The constructor does not do so for \<open>k = 2 ^ 32\<close>. Its
  initialiser \<open>empty_(size)\<close> converts the \<open>size_t\<close> to the \<open>unsigned int\<close> parameter of
  \<open>Semaphore\<close>, while \<open>storage_(new T[size])\<close> and \<open>end_(storage_.get() + size)\<close> take the
  \<open>size_t\<close> as it is: the queue has \<open>2 ^ 32\<close> slots, the counter of \<open>empty_\<close>, which the
  header declares as the ``number of empty spaces in \<open>storage_\<close>'', is 0, the sum with
  no operation in flight is 0, and the first \<open>Produce\<close> does not return.
\<close>

theorem PCQueue_capacity_narrowed:
  "PCQueue nat_element Succeeds Succeeds 4294967296 = Inr huge_queue
   \<and> unat (4294967296 :: 64 word) = 4294967296
   \<and> length (storage_m huge_queue) = 4294967296
   \<and> end_m huge_queue = 4294967296
   \<and> sem_m (empty_m huge_queue) = 0
   \<and> sem_m (used_m huge_queue) = 0
   \<and> sem_m (empty_m huge_queue) + sem_m (used_m huge_queue)
        + in_flight (idle_system huge_queue 2) = 0
   \<and> Produce nat_element quiet huge_queue 1 = None"
proof -
  have "PCQueue nat_element Succeeds Succeeds 4294967296 = Inr huge_queue"
    by (simp add: PCQueue_def Semaphore_def sem_init_def nat_element_def huge_queue_def)
  moreover have "Produce nat_element quiet huge_queue 1 = None"
    by (rule Produce_blocks [OF calm_quiet]) (simp add: huge_queue_def)
  ultimately show ?thesis by (simp add: huge_queue_def in_flight_idle)
qed

subsection \<open>PCQueue: a full queue holds producers back\<close>

lemma full_after_capacity_produces:
  assumes "PCQueue T ev1 ev2 sz = Inr q0" and "nothrow T"
    and "\<forall>c\<in>set cs. calm (call_env c)"
    and "consumes cs = 0" and "length cs = unat sz"
    and "run T q0 cs = Some (Inr (q, outs))"
  shows "consistent q" and "sem_m (empty_m q) = 0" and "sem_m (used_m q) = unat sz"
proof -
  note c0 = PCQueue_consistent [OF assms(1)]
  have a: "admits (sem_m (empty_m q0)) (sem_m (used_m q0)) cs"
    using run_admits [OF assms(2,3,6) c0(1)] .
  from run_fifo [OF assms(2) c0(1) assms(3) a] assms(6)
  have q: "consistent q" "pending q = drop (consumes cs) (pending q0 @ produced cs)"
    "sem_m (empty_m q) + sem_m (used_m q) = sem_m (empty_m q0) + sem_m (used_m q0)"
    by auto
  show "consistent q" by fact
  have "length (pending q) = unat sz"
    using q(2) assms(4,5) c0(2) by (simp add: produced_only)
  then show u: "sem_m (used_m q) = unat sz" by (simp add: length_pending)
  have "sem_m (empty_m q0) + sem_m (used_m q0) = unat sz mod 2 ^ 32"
    unfolding PCQueue_fresh [OF assms(1)] by simp
  moreover have "unat sz mod 2 ^ 32 \<le> unat sz" by simp
  ultimately show "sem_m (empty_m q) = 0" using q(3) u by linarith
qed

lemma producer_at_wait:
  assumes "i < length (threads s)" and "threads s ! i = P_wait k v"
  shows "move T s i =
           (if sem_m (empty_m (queue s)) = 0 then None
            else Some (s\<lparr>queue := (queue s)\<lparr>empty_m := (empty_m (queue s))\<lparr>sem_m := sem_m (empty_m (queue s)) - 1\<rparr>\<rparr>,
                        threads := (threads s)[i := P_lock k v]\<rparr>))"
  using assms by (simp add: move_def wait_quiet Let_def)

lemma consumer_at_post:
  assumes "c < length (threads s)" and "threads s ! c = C_post"
  shows "move T s c =
           Some (s\<lparr>queue := (queue s)\<lparr>empty_m := (empty_m (queue s))\<lparr>sem_m := Suc (sem_m (empty_m (queue s)))\<rparr>\<rparr>,
                   threads := (threads s)[c := Idle]\<rparr>)"
  using assms by (simp add: move_def post_quiet Let_def)

lemma one_consumer_releases_one_producer:
  assumes "sem_m (empty_m (queue s)) = 0"
    and "i < length (threads s)" "threads s ! i = P_wait k v"
    and "j < length (threads s)" "threads s ! j = P_wait k' v'"
    and "c < length (threads s)" "threads s ! c = C_post"
    and "i \<noteq> j"
  shows "move T s i = None \<and> move T s j = None \<and>
         (\<exists>s1. move T s c = Some s1 \<and>
            (\<exists>s2. move T s1 i = Some s2 \<and> move T s2 j = None) \<and>
            (\<exists>s2. move T s1 j = Some s2 \<and> move T s2 i = None))"
proof -
  let ?s1 = "s\<lparr>queue := (queue s)\<lparr>empty_m := (empty_m (queue s))\<lparr>sem_m := Suc (sem_m (empty_m (queue s)))\<rparr>\<rparr>,
                   threads := (threads s)[c := Idle]\<rparr>"
  have ci: "c \<noteq> i" "c \<noteq> j" using assms(3,5,7) by auto
  have blocked: "move T s i = None" "move T s j = None"
    using producer_at_wait [OF assms(2,3)] producer_at_wait [OF assms(4,5)] assms(1) by simp_all
  have c: "move T s c = Some ?s1"
    by (rule consumer_at_post [OF assms(6,7)])
  have i1: "i < length (threads ?s1)" "threads ?s1 ! i = P_wait k v"
    and j1: "j < length (threads ?s1)" "threads ?s1 ! j = P_wait k' v'"
    using assms(2-5) ci by simp_all
  let ?si = "?s1\<lparr>queue := (queue ?s1)\<lparr>empty_m := (empty_m (queue ?s1))\<lparr>sem_m := sem_m (empty_m (queue ?s1)) - 1\<rparr>\<rparr>,
                        threads := (threads ?s1)[i := P_lock k v]\<rparr>"
  let ?sj = "?s1\<lparr>queue := (queue ?s1)\<lparr>empty_m := (empty_m (queue ?s1))\<lparr>sem_m := sem_m (empty_m (queue ?s1)) - 1\<rparr>\<rparr>,
                        threads := (threads ?s1)[j := P_lock k' v']\<rparr>"
  have mi: "move T ?s1 i = Some ?si"
    using producer_at_wait [OF i1, of T] by simp
  have mj: "move T ?s1 j = Some ?sj"
    using producer_at_wait [OF j1, of T] by simp
  have "j < length (threads ?si)" "threads ?si ! j = P_wait k' v'"
    using j1 assms(8) by simp_all
  from producer_at_wait [OF this, of T] have ij: "move T ?si j = None"
    using assms(1) by simp
  have "i < length (threads ?sj)" "threads ?sj ! i = P_wait k v"
    using i1 assms(8) by simp_all
  from producer_at_wait [OF this, of T] have ji: "move T ?sj i = None"
    using assms(1) by simp
  show ?thesis
    using blocked c mi mj ij ji by blast
qed

text \<open>
  C3. Take a queue constructed with capacity \<open>k\<close> on which \<open>k\<close> \<open>Produce\<close> calls have
  returned and no \<open>Consume\<close> has been called. A further \<open>Produce\<close> does not return: its wait
  finds the counter of \<open>empty_\<close> at zero. Once one \<open>Consume\<close> has returned, one \<open>Produce\<close>
  returns, and the \<open>Produce\<close> after it again does not: one \<open>Consume\<close> releases exactly one
  producer. (With \<open>k = 0\<close> no \<open>Consume\<close> can return either.) Seen thread by thread: while
  the counter of \<open>empty_\<close> is zero no producer at its wait can step; when a consumer posts
  \<open>empty_\<close>, either of two waiting producers can pass its wait, and once one has, the
  other cannot.
\<close>

theorem PCQueue_backpressure:
  assumes "PCQueue T ev1 ev2 sz = Inr q0" and "nothrow T"
    and "\<forall>c\<in>set cs. calm (call_env c)"
    and "consumes cs = 0" and "length cs = unat sz"
    and "run T q0 cs = Some (Inr (q, outs))"
    and "calm E" and "calm E1" and "calm E2" and "calm E3"
  shows "Produce T E q v = None
       \<and> (0 < unat sz \<longrightarrow>
            (\<exists>q1 x. Consume T E1 q out = Some (Inr (q1, x)) \<and>
               (\<exists>q2. Produce T E2 q1 v = Some (Inr q2) \<and> Produce T E3 q2 w = None)))
       \<and> (sem_m (empty_m (queue s)) = 0 \<and>
          i < length (threads s) \<and> threads s ! i = P_wait k1 v1 \<and>
          j < length (threads s) \<and> threads s ! j = P_wait k2 v2 \<and>
          c < length (threads s) \<and> threads s ! c = C_post \<and> i \<noteq> j \<longrightarrow>
          move T s i = None \<and> move T s j = None \<and>
          (\<exists>s1. move T s c = Some s1 \<and>
             (\<exists>s2. move T s1 i = Some s2 \<and> move T s2 j = None) \<and>
             (\<exists>s2. move T s1 j = Some s2 \<and> move T s2 i = None)))"
proof -
  note full = full_after_capacity_produces [OF assms(1-6)]
  have blocked: "Produce T E q v = None"
    using Produce_blocks [OF assms(7) full(2)] .
  have released: "\<exists>q1 x. Consume T E1 q out = Some (Inr (q1, x)) \<and>
               (\<exists>q2. Produce T E2 q1 v = Some (Inr q2) \<and> Produce T E3 q2 w = None)"
    if "0 < unat sz"
  proof -
    let ?q1 = "q\<lparr>used_m := (used_m q)\<lparr>sem_m := sem_m (used_m q) - 1\<rparr>,
                  consume_at_m := advance (consume_at_m q) (end_m q),
                  empty_m := (empty_m q)\<lparr>sem_m := Suc (sem_m (empty_m q))\<rparr>\<rparr>"
    have filled: "0 < sem_m (used_m q)" using that full(3) by simp
    have c: "Consume T E1 q out = Some (Inr (?q1, storage_m q ! consume_at_m q))"
      using Consume_calm [OF assms(8) filled] assms(2) by (simp add: nothrow_def)
    have free1: "0 < sem_m (empty_m ?q1)" by simp
    let ?q2 = "?q1\<lparr>empty_m := (empty_m ?q1)\<lparr>sem_m := sem_m (empty_m ?q1) - 1\<rparr>,
                  storage_m := (storage_m ?q1)[produce_at_m ?q1 := v],
                  produce_at_m := advance (produce_at_m ?q1) (end_m ?q1),
                  used_m := (used_m ?q1)\<lparr>sem_m := Suc (sem_m (used_m ?q1))\<rparr>\<rparr>"
    have p: "Produce T E2 ?q1 v = Some (Inr ?q2)"
      using Produce_calm [OF assms(9) free1] assms(2) by (simp add: nothrow_def)
    have "sem_m (empty_m ?q2) = 0" using full(2) by simp
    then have "Produce T E3 ?q2 w = None"
      by (rule Produce_blocks [OF assms(10)])
    then show ?thesis using c p by blast
  qed
  show ?thesis
    using blocked released one_consumer_releases_one_producer [of s i k1 v1 j k2 v2 c T]
    by blast
qed

lemma two_produces_run: "run nat_element nat_fresh2 two_produces = Some (Inr (nat_full2, []))"
  by (simp add: two_produces_def eval_defs Let_def stormy_def twice_interrupted_def EINTR_def
        nat_element_def nat_fresh2_def nat_full2_def)

theorem PCQueue_backpressure_witness:
  "PCQueue nat_element Succeeds Succeeds 2 = Inr nat_fresh2
   \<and> run nat_element nat_fresh2 two_produces = Some (Inr (nat_full2, []))
   \<and> Produce nat_element quiet nat_full2 3 = None
   \<and> (\<exists>q1 x. Consume nat_element stormy nat_full2 0 = Some (Inr (q1, x)) \<and>
         (\<exists>q2. Produce nat_element quiet q1 3 = Some (Inr q2) \<and>
               Produce nat_element stormy q2 4 = None))
   \<and> move nat_element two_waiting 0 = None \<and> move nat_element two_waiting 1 = None
   \<and> (\<exists>s1. move nat_element two_waiting 2 = Some s1 \<and>
         (\<exists>s2. move nat_element s1 0 = Some s2 \<and> move nat_element s2 1 = None) \<and>
         (\<exists>s2. move nat_element s1 1 = Some s2 \<and> move nat_element s2 0 = None))"
proof -
  have c: "\<forall>c\<in>set two_produces. calm (call_env c)"
    by (simp add: two_produces_def calm_quiet calm_stormy)
  have "consumes two_produces = 0" "length two_produces = unat (2 :: 64 word)"
    by (simp_all add: two_produces_def)
  from PCQueue_backpressure [OF fresh2 nothrow_nat_element c this two_produces_run
      calm_quiet calm_stormy calm_quiet calm_stormy,
      where v = 3 and out = 0 and w = 4 and s = two_waiting and i = 0 and j = 1 and c = 2
        and ?k1.0 = Copy and ?v1.0 = 3 and ?k2.0 = Copy and ?v2.0 = 4]
  show ?thesis using fresh2 two_produces_run by (simp add: two_waiting_def)
qed


subsection \<open>PCQueue: first-in, first-out across threads\<close>

lemma cnt_pos: "i < length ts \<Longrightarrow> P (ts ! i) \<Longrightarrow> 0 < length (filter P ts)"
  by (metis filter_empty_conv length_greater_0_conv nth_mem)

lemma cnt_update:
  "i < length ts \<Longrightarrow>
   length (filter P (ts[i := p]))
     = length (filter P ts) - (if P (ts ! i) then 1 else 0) + (if P p then 1 else 0)"
  using filter_update_count [of i ts P p] cnt_pos [of i ts P] by (auto split: if_splits)

lemma nothrow_produce_transfer: "nothrow T \<Longrightarrow> produce_transfer T k slot v = (None, v)"
  by (cases k) (simp_all add: produce_transfer_def nothrow_def)

lemma nothrow_consume_transfer:
  "nothrow T \<Longrightarrow> consume_transfer T k out slot = (None, case k of Copy \<Rightarrow> slot | Swap \<Rightarrow> out)"
  by (cases k) (simp_all add: consume_transfer_def nothrow_def)

lemmas is_simps =
  is_P_lock.simps is_P_transfer.simps is_P_advance.simps is_P_post.simps
  is_C_lock.simps is_C_transfer.simps is_C_advance.simps is_C_post.simps is_unwinding.simps

lemma count_at_become:
  assumes "i < length (threads s)" and "threads s' = (threads s)[i := p]"
  shows "count_at P s' = count_at P s - (if P (threads s ! i) then 1 else 0) + (if P p then 1 else 0)"
  using cnt_update [OF assms(1), of P p] assms(2) by (simp add: count_at_def)

lemma count_at_pos: "i < length (threads s) \<Longrightarrow> P (threads s ! i) \<Longrightarrow> 0 < count_at P s"
  using cnt_pos [of i "threads s" P] by (simp add: count_at_def)

lemma fifo_invD:
  assumes "fifo_inv k (s, enq, deq)"
  shows "end_m (queue s) = length (storage_m (queue s))" and "k \<le> end_m (queue s)"
    and "count_at is_unwinding s = 0"
    and "count_at is_P_transfer s + count_at is_P_advance s = (if produce_at_mutex_m s then 1 else 0)"
    and "count_at is_C_transfer s + count_at is_C_advance s = (if consume_at_mutex_m s then 1 else 0)"
    and "sem_m (used_m (queue s)) + length deq
          + (count_at is_P_advance s + count_at is_P_post s + count_at is_C_lock s
             + count_at is_C_transfer s) = length enq"
    and "sem_m (empty_m (queue s)) + length enq
          + (count_at is_P_lock s + count_at is_P_transfer s + count_at is_C_advance s
             + count_at is_C_post s) = k + length deq"
    and "produce_at_m (queue s) = (length enq - count_at is_P_advance s) mod end_m (queue s)"
    and "consume_at_m (queue s) = (length deq - count_at is_C_advance s) mod end_m (queue s)"
    and "count_at is_P_advance s \<le> length enq" and "count_at is_C_advance s \<le> length deq"
    and "\<And>n. length deq \<le> n \<Longrightarrow> n < length enq \<Longrightarrow>
             storage_m (queue s) ! (n mod end_m (queue s)) = enq ! n"
    and "deq = take (length deq) enq"
  using assms unfolding fifo_inv_def Let_def by auto

lemma fifo_invI:
  assumes "end_m (queue s) = length (storage_m (queue s))" and "k \<le> end_m (queue s)"
    and "count_at is_unwinding s = 0"
    and "count_at is_P_transfer s + count_at is_P_advance s = (if produce_at_mutex_m s then 1 else 0)"
    and "count_at is_C_transfer s + count_at is_C_advance s = (if consume_at_mutex_m s then 1 else 0)"
    and "sem_m (used_m (queue s)) + length deq
          + (count_at is_P_advance s + count_at is_P_post s + count_at is_C_lock s
             + count_at is_C_transfer s) = length enq"
    and "sem_m (empty_m (queue s)) + length enq
          + (count_at is_P_lock s + count_at is_P_transfer s + count_at is_C_advance s
             + count_at is_C_post s) = k + length deq"
    and "produce_at_m (queue s) = (length enq - count_at is_P_advance s) mod end_m (queue s)"
    and "consume_at_m (queue s) = (length deq - count_at is_C_advance s) mod end_m (queue s)"
    and "count_at is_P_advance s \<le> length enq" and "count_at is_C_advance s \<le> length deq"
    and "\<And>n. length deq \<le> n \<Longrightarrow> n < length enq \<Longrightarrow>
             storage_m (queue s) ! (n mod end_m (queue s)) = enq ! n"
    and "deq = take (length deq) enq"
  shows "fifo_inv k (s, enq, deq)"
  unfolding fifo_inv_def Let_def using assms by simp

text \<open>A step that moves no cursor, writes no slot and records nothing.\<close>

lemma fifo_frame:
  assumes inv: "fifo_inv k (s, enq, deq)"
    and same: "storage_m (queue s') = storage_m (queue s)" "end_m (queue s') = end_m (queue s)"
      "produce_at_m (queue s') = produce_at_m (queue s)"
      "consume_at_m (queue s') = consume_at_m (queue s)"
    and pa: "count_at is_P_advance s' = count_at is_P_advance s"
    and ca: "count_at is_C_advance s' = count_at is_C_advance s"
    and u: "count_at is_unwinding s' = 0"
    and m1: "count_at is_P_transfer s' + count_at is_P_advance s' = (if produce_at_mutex_m s' then 1 else 0)"
    and m2: "count_at is_C_transfer s' + count_at is_C_advance s' = (if consume_at_mutex_m s' then 1 else 0)"
    and a: "sem_m (used_m (queue s')) + length deq
          + (count_at is_P_advance s' + count_at is_P_post s' + count_at is_C_lock s'
             + count_at is_C_transfer s') = length enq"
    and b: "sem_m (empty_m (queue s')) + length enq
          + (count_at is_P_lock s' + count_at is_P_transfer s' + count_at is_C_advance s'
             + count_at is_C_post s') = k + length deq"
  shows "fifo_inv k (s', enq, deq)"
proof (rule fifo_invI)
  note d = fifo_invD [OF inv]
  show "end_m (queue s') = length (storage_m (queue s'))" using d(1) same by simp
  show "k \<le> end_m (queue s')" using d(2) same by simp
  show "produce_at_m (queue s') = (length enq - count_at is_P_advance s') mod end_m (queue s')"
    using d(8) same pa by simp
  show "consume_at_m (queue s') = (length deq - count_at is_C_advance s') mod end_m (queue s')"
    using d(9) same ca by simp
  show "count_at is_P_advance s' \<le> length enq" using d(10) pa by simp
  show "count_at is_C_advance s' \<le> length deq" using d(11) ca by simp
  show "storage_m (queue s') ! (n mod end_m (queue s')) = enq ! n"
    if "length deq \<le> n" "n < length enq" for n
    using d(12) [of n] that same by simp
  show "deq = take (length deq) enq" by (rule d(13))
qed (fact u m1 m2 a b)+

lemma fifo_call:
  assumes inv: "fifo_inv k (s, enq, deq)" and i: "i < length (threads s)"
    and idle: "threads s ! i = Idle"
    and p: "p = P_wait kd v \<or> p = C_wait kd v"
    and s': "threads s' = (threads s)[i := p]" "queue s' = queue s"
      "produce_at_mutex_m s' = produce_at_mutex_m s" "consume_at_mutex_m s' = consume_at_mutex_m s"
  shows "fifo_inv k (s', enq, deq)"
proof -
  have c: "count_at P s' = count_at P s" if "\<not> P Idle" "\<not> P p" for P
    using count_at_become [OF i s'(1), of P] that idle by simp
  note d = fifo_invD [OF inv]
  show ?thesis
    by (rule fifo_frame [OF inv]) (use d p in \<open>auto simp add: c s'\<close>)
qed

text \<open>The steps that only touch the counters and the mutexes.\<close>

lemma fifo_P_wait:
  assumes inv: "fifo_inv k (s, enq, deq)" and i: "i < length (threads s)"
    and pc: "threads s ! i = P_wait kd v" and free: "0 < sem_m (empty_m (queue s))"
    and s': "threads s' = (threads s)[i := P_lock kd v]"
      "queue s' = (queue s)\<lparr>empty_m := (empty_m (queue s))\<lparr>sem_m := sem_m (empty_m (queue s)) - 1\<rparr>\<rparr>"
      "produce_at_mutex_m s' = produce_at_mutex_m s" "consume_at_mutex_m s' = consume_at_mutex_m s"
  shows "fifo_inv k (s', enq, deq)"
proof -
  have c: "count_at P s' = count_at P s + (if P (P_lock kd v) then 1 else 0)"
    if "\<not> P (P_wait kd v)" for P
    using count_at_become [OF i s'(1), of P] that pc by simp
  note d = fifo_invD [OF inv]
  show ?thesis
    by (rule fifo_frame [OF inv]) (use d free in \<open>simp_all add: c s'\<close>)
qed

lemma fifo_P_lock:
  assumes inv: "fifo_inv k (s, enq, deq)" and i: "i < length (threads s)"
    and pc: "threads s ! i = P_lock kd v" and free: "\<not> produce_at_mutex_m s"
    and s': "threads s' = (threads s)[i := P_transfer kd v]" "queue s' = queue s"
      "produce_at_mutex_m s'" "consume_at_mutex_m s' = consume_at_mutex_m s"
  shows "fifo_inv k (s', enq, deq)"
proof -
  have c: "count_at P s' = count_at P s - (if P (P_lock kd v) then 1 else 0)
             + (if P (P_transfer kd v) then 1 else 0)" for P
    using count_at_become [OF i s'(1), of P] pc by simp
  have p: "0 < count_at is_P_lock s"
    using count_at_pos [OF i, of is_P_lock] pc by simp
  note d = fifo_invD [OF inv]
  show ?thesis
    by (rule fifo_frame [OF inv]) (use d free p in \<open>simp_all add: c s'\<close>)
qed

lemma fifo_P_post:
  assumes inv: "fifo_inv k (s, enq, deq)" and i: "i < length (threads s)"
    and pc: "threads s ! i = P_post"
    and s': "threads s' = (threads s)[i := Idle]"
      "queue s' = (queue s)\<lparr>used_m := (used_m (queue s))\<lparr>sem_m := Suc (sem_m (used_m (queue s)))\<rparr>\<rparr>"
      "produce_at_mutex_m s' = produce_at_mutex_m s" "consume_at_mutex_m s' = consume_at_mutex_m s"
  shows "fifo_inv k (s', enq, deq)"
proof -
  have c: "count_at P s' = count_at P s - (if P P_post then 1 else 0)" if "\<not> P Idle" for P
    using count_at_become [OF i s'(1), of P] pc that by simp
  have p: "0 < count_at is_P_post s"
    using count_at_pos [OF i, of is_P_post] pc by simp
  note d = fifo_invD [OF inv]
  show ?thesis
    by (rule fifo_frame [OF inv]) (use d p in \<open>simp_all add: c s'\<close>)
qed

lemma fifo_C_wait:
  assumes inv: "fifo_inv k (s, enq, deq)" and i: "i < length (threads s)"
    and pc: "threads s ! i = C_wait kd v" and filled: "0 < sem_m (used_m (queue s))"
    and s': "threads s' = (threads s)[i := C_lock kd v]"
      "queue s' = (queue s)\<lparr>used_m := (used_m (queue s))\<lparr>sem_m := sem_m (used_m (queue s)) - 1\<rparr>\<rparr>"
      "produce_at_mutex_m s' = produce_at_mutex_m s" "consume_at_mutex_m s' = consume_at_mutex_m s"
  shows "fifo_inv k (s', enq, deq)"
proof -
  have c: "count_at P s' = count_at P s + (if P (C_lock kd v) then 1 else 0)"
    if "\<not> P (C_wait kd v)" for P
    using count_at_become [OF i s'(1), of P] that pc by simp
  note d = fifo_invD [OF inv]
  show ?thesis
    by (rule fifo_frame [OF inv]) (use d filled in \<open>simp_all add: c s'\<close>)
qed

lemma fifo_C_lock:
  assumes inv: "fifo_inv k (s, enq, deq)" and i: "i < length (threads s)"
    and pc: "threads s ! i = C_lock kd v" and free: "\<not> consume_at_mutex_m s"
    and s': "threads s' = (threads s)[i := C_transfer kd v]" "queue s' = queue s"
      "produce_at_mutex_m s' = produce_at_mutex_m s" "consume_at_mutex_m s'"
  shows "fifo_inv k (s', enq, deq)"
proof -
  have c: "count_at P s' = count_at P s - (if P (C_lock kd v) then 1 else 0)
             + (if P (C_transfer kd v) then 1 else 0)" for P
    using count_at_become [OF i s'(1), of P] pc by simp
  have p: "0 < count_at is_C_lock s"
    using count_at_pos [OF i, of is_C_lock] pc by simp
  note d = fifo_invD [OF inv]
  show ?thesis
    by (rule fifo_frame [OF inv]) (use d free p in \<open>simp_all add: c s'\<close>)
qed

lemma fifo_C_post:
  assumes inv: "fifo_inv k (s, enq, deq)" and i: "i < length (threads s)"
    and pc: "threads s ! i = C_post"
    and s': "threads s' = (threads s)[i := Idle]"
      "queue s' = (queue s)\<lparr>empty_m := (empty_m (queue s))\<lparr>sem_m := Suc (sem_m (empty_m (queue s)))\<rparr>\<rparr>"
      "produce_at_mutex_m s' = produce_at_mutex_m s" "consume_at_mutex_m s' = consume_at_mutex_m s"
  shows "fifo_inv k (s', enq, deq)"
proof -
  have c: "count_at P s' = count_at P s - (if P C_post then 1 else 0)" if "\<not> P Idle" for P
    using count_at_become [OF i s'(1), of P] pc that by simp
  have p: "0 < count_at is_C_post s"
    using count_at_pos [OF i, of is_C_post] pc by simp
  note d = fifo_invD [OF inv]
  show ?thesis
    by (rule fifo_frame [OF inv]) (use d p in \<open>simp_all add: c s'\<close>)
qed

lemma taken_length_le:
  assumes "xs = take (length xs) ys"
  shows "length xs \<le> length ys"
proof -
  have "length xs = length (take (length xs) ys)" by (rule arg_cong [OF assms])
  then show ?thesis by simp
qed

lemma fifo_P_transfer:
  assumes inv: "fifo_inv k (s, enq, deq)" and i: "i < length (threads s)"
    and pc: "threads s ! i = P_transfer kd v"
    and s': "threads s' = (threads s)[i := P_advance]"
      "queue s' = with_slot (queue s) (produce_at_m (queue s)) v"
      "produce_at_mutex_m s' = produce_at_mutex_m s" "consume_at_mutex_m s' = consume_at_mutex_m s"
  shows "fifo_inv k (s', enq @ [v], deq)"
proof (rule fifo_invI)
  note d = fifo_invD [OF inv]
  let ?e = "end_m (queue s)"
  have c: "count_at P s' = count_at P s - (if P (P_transfer kd v) then 1 else 0)
             + (if P P_advance then 1 else 0)" for P
    using count_at_become [OF i s'(1), of P] pc by simp
  have p: "0 < count_at is_P_transfer s"
    using count_at_pos [OF i, of is_P_transfer] pc by simp
  have pt: "count_at is_P_transfer s = 1" and pa: "count_at is_P_advance s = 0"
    and mx: "produce_at_mutex_m s"
    using d(4) p by (auto split: if_splits)
  have le: "length deq \<le> length enq"
    by (rule taken_length_le [OF d(13)])
  have room: "length enq - length deq < k"
    using d(7) pt le by simp
  have e: "0 < ?e" using room d(2) by simp
  have q: "storage_m (queue s') = (storage_m (queue s))[length enq mod ?e := v]"
    "end_m (queue s') = ?e" "produce_at_m (queue s') = length enq mod ?e"
    "consume_at_m (queue s') = consume_at_m (queue s)"
    "used_m (queue s') = used_m (queue s)" "empty_m (queue s') = empty_m (queue s)"
    using d(8) pa by (simp_all add: s' with_slot_def)
  show "end_m (queue s') = length (storage_m (queue s'))" using d(1) q by simp
  show "k \<le> end_m (queue s')" using d(2) q by simp
  show "count_at is_unwinding s' = 0" using d(3) by (simp add: c)
  show "count_at is_P_transfer s' + count_at is_P_advance s' = (if produce_at_mutex_m s' then 1 else 0)"
    using pt pa mx by (simp add: c s')
  show "count_at is_C_transfer s' + count_at is_C_advance s' = (if consume_at_mutex_m s' then 1 else 0)"
    using d(5) by (simp add: c s')
  show "sem_m (used_m (queue s')) + length deq
          + (count_at is_P_advance s' + count_at is_P_post s' + count_at is_C_lock s'
             + count_at is_C_transfer s') = length (enq @ [v])"
    using d(6) pa by (simp add: c q)
  show "sem_m (empty_m (queue s')) + length (enq @ [v])
          + (count_at is_P_lock s' + count_at is_P_transfer s' + count_at is_C_advance s'
             + count_at is_C_post s') = k + length deq"
    using d(7) pt by (simp add: c q)
  show "produce_at_m (queue s') = (length (enq @ [v]) - count_at is_P_advance s') mod end_m (queue s')"
    using pa by (simp add: c q)
  show "consume_at_m (queue s') = (length deq - count_at is_C_advance s') mod end_m (queue s')"
    using d(9) by (simp add: c q)
  show "count_at is_P_advance s' \<le> length (enq @ [v])" using pa by (simp add: c)
  show "count_at is_C_advance s' \<le> length deq" using d(11) by (simp add: c)
  show "deq = take (length deq) (enq @ [v])" using d(13) le by simp
  show "storage_m (queue s') ! (n mod end_m (queue s')) = (enq @ [v]) ! n"
    if n: "length deq \<le> n" "n < length (enq @ [v])" for n
  proof (cases "n = length enq")
    case True
    then show ?thesis using e d(1) by (simp add: q)
  next
    case False
    then have lt: "n < length enq" using n(2) by simp
    have "(n + 0) mod ?e \<noteq> (n + (length enq - n)) mod ?e"
      by (rule mod_shift_neq) (use lt n(1) room d(2) in simp_all)
    then have "n mod ?e \<noteq> length enq mod ?e" using lt by simp
    then have "storage_m (queue s') ! (n mod ?e) = storage_m (queue s) ! (n mod ?e)"
      by (simp add: q)
    then show ?thesis using d(12) [of n] n(1) lt by (simp add: q nth_append)
  qed
qed

lemma fifo_P_advance:
  assumes inv: "fifo_inv k (s, enq, deq)" and i: "i < length (threads s)"
    and pc: "threads s ! i = P_advance"
    and s': "threads s' = (threads s)[i := P_post]"
      "queue s' = (queue s)\<lparr>produce_at_m := advance (produce_at_m (queue s)) (end_m (queue s))\<rparr>"
      "\<not> produce_at_mutex_m s'" "consume_at_mutex_m s' = consume_at_mutex_m s"
  shows "fifo_inv k (s', enq, deq)"
proof (rule fifo_invI)
  note d = fifo_invD [OF inv]
  let ?e = "end_m (queue s)"
  have c: "count_at P s' = count_at P s - (if P P_advance then 1 else 0)
             + (if P P_post then 1 else 0)" for P
    using count_at_become [OF i s'(1), of P] pc by simp
  have p: "0 < count_at is_P_advance s"
    using count_at_pos [OF i, of is_P_advance] pc by simp
  have pa: "count_at is_P_advance s = 1" and pt: "count_at is_P_transfer s = 0"
    using d(4) p by (auto split: if_splits)
  have le: "length deq \<le> length enq"
    by (rule taken_length_le [OF d(13)])
  obtain m where m: "length enq = Suc m" using d(10) pa by (cases "length enq") simp_all
  have e: "0 < ?e"
  proof (rule ccontr)
    assume "\<not> 0 < ?e"
    then have "k = 0" using d(2) by simp
    then show False using d(7) d(6) pa by simp
  qed
  have "advance (produce_at_m (queue s)) ?e = Suc (m mod ?e) mod ?e"
    using d(8) pa m e by (simp add: advance_mod)
  then have adv: "advance (produce_at_m (queue s)) ?e = length enq mod ?e"
    by (simp add: m mod_Suc_eq)
  show "end_m (queue s') = length (storage_m (queue s'))" using d(1) by (simp add: s')
  show "k \<le> end_m (queue s')" using d(2) by (simp add: s')
  show "count_at is_unwinding s' = 0" using d(3) by (simp add: c)
  show "count_at is_P_transfer s' + count_at is_P_advance s' = (if produce_at_mutex_m s' then 1 else 0)"
    using pt pa by (simp add: c s')
  show "count_at is_C_transfer s' + count_at is_C_advance s' = (if consume_at_mutex_m s' then 1 else 0)"
    using d(5) by (simp add: c s')
  show "sem_m (used_m (queue s')) + length deq
          + (count_at is_P_advance s' + count_at is_P_post s' + count_at is_C_lock s'
             + count_at is_C_transfer s') = length enq"
    using d(6) pa by (simp add: c s')
  show "sem_m (empty_m (queue s')) + length enq
          + (count_at is_P_lock s' + count_at is_P_transfer s' + count_at is_C_advance s'
             + count_at is_C_post s') = k + length deq"
    using d(7) by (simp add: c s')
  show "produce_at_m (queue s') = (length enq - count_at is_P_advance s') mod end_m (queue s')"
    using pa adv by (simp add: c s')
  show "consume_at_m (queue s') = (length deq - count_at is_C_advance s') mod end_m (queue s')"
    using d(9) by (simp add: c s')
  show "count_at is_P_advance s' \<le> length enq" using pa by (simp add: c)
  show "count_at is_C_advance s' \<le> length deq" using d(11) by (simp add: c)
  show "deq = take (length deq) enq" by (rule d(13))
  show "storage_m (queue s') ! (n mod end_m (queue s')) = enq ! n"
    if "length deq \<le> n" "n < length enq" for n
    using d(12) [of n] that by (simp add: s')
qed

lemma fifo_C_transfer:
  assumes inv: "fifo_inv k (s, enq, deq)" and i: "i < length (threads s)"
    and pc: "threads s ! i = C_transfer kd out"
    and s': "threads s' = (threads s)[i := C_advance]"
      "queue s' = with_slot (queue s) (consume_at_m (queue s)) y"
      "produce_at_mutex_m s' = produce_at_mutex_m s" "consume_at_mutex_m s' = consume_at_mutex_m s"
  shows "fifo_inv k (s', enq, deq @ [storage_m (queue s) ! consume_at_m (queue s)])"
proof (rule fifo_invI)
  note d = fifo_invD [OF inv]
  let ?e = "end_m (queue s)"
  let ?x = "storage_m (queue s) ! consume_at_m (queue s)"
  have c: "count_at P s' = count_at P s - (if P (C_transfer kd out) then 1 else 0)
             + (if P C_advance then 1 else 0)" for P
    using count_at_become [OF i s'(1), of P] pc by simp
  have p: "0 < count_at is_C_transfer s"
    using count_at_pos [OF i, of is_C_transfer] pc by simp
  have ct: "count_at is_C_transfer s = 1" and ca: "count_at is_C_advance s = 0"
    and mx: "consume_at_mutex_m s"
    using d(5) p by (auto split: if_splits)
  have lt: "length deq < length enq" using d(6) ct by simp
  have span: "length enq - length deq \<le> k" using d(7) lt by simp
  have e: "0 < ?e" using span lt d(2) by simp
  have at: "consume_at_m (queue s) = length deq mod ?e" using d(9) ca by simp
  have x: "?x = enq ! length deq" using d(12) [of "length deq"] lt at by simp
  have q: "storage_m (queue s') = (storage_m (queue s))[length deq mod ?e := y]"
    "end_m (queue s') = ?e" "consume_at_m (queue s') = length deq mod ?e"
    "produce_at_m (queue s') = produce_at_m (queue s)"
    "used_m (queue s') = used_m (queue s)" "empty_m (queue s') = empty_m (queue s)"
    using at by (simp_all add: s' with_slot_def)
  show "end_m (queue s') = length (storage_m (queue s'))" using d(1) q by simp
  show "k \<le> end_m (queue s')" using d(2) q by simp
  show "count_at is_unwinding s' = 0" using d(3) by (simp add: c)
  show "count_at is_P_transfer s' + count_at is_P_advance s' = (if produce_at_mutex_m s' then 1 else 0)"
    using d(4) by (simp add: c s')
  show "count_at is_C_transfer s' + count_at is_C_advance s' = (if consume_at_mutex_m s' then 1 else 0)"
    using ct ca mx by (simp add: c s')
  show "sem_m (used_m (queue s')) + length (deq @ [?x])
          + (count_at is_P_advance s' + count_at is_P_post s' + count_at is_C_lock s'
             + count_at is_C_transfer s') = length enq"
    using d(6) ct by (simp add: c q)
  show "sem_m (empty_m (queue s')) + length enq
          + (count_at is_P_lock s' + count_at is_P_transfer s' + count_at is_C_advance s'
             + count_at is_C_post s') = k + length (deq @ [?x])"
    using d(7) ca by (simp add: c q)
  show "produce_at_m (queue s') = (length enq - count_at is_P_advance s') mod end_m (queue s')"
    using d(8) by (simp add: c q)
  show "consume_at_m (queue s') = (length (deq @ [?x]) - count_at is_C_advance s') mod end_m (queue s')"
    using ca by (simp add: c q)
  show "count_at is_P_advance s' \<le> length enq" using d(10) by (simp add: c)
  show "count_at is_C_advance s' \<le> length (deq @ [?x])" using ca by (simp add: c)
  show "deq @ [?x] = take (length (deq @ [?x])) enq"
    using d(13) lt x by (simp add: take_Suc_conv_app_nth)
  show "storage_m (queue s') ! (n mod end_m (queue s')) = enq ! n"
    if n: "length (deq @ [?x]) \<le> n" "n < length enq" for n
  proof -
    have "(length deq + 0) mod ?e \<noteq> (length deq + (n - length deq)) mod ?e"
      by (rule mod_shift_neq) (use n span d(2) in simp_all)
    then have "length deq mod ?e \<noteq> n mod ?e" using n(1) by simp
    then have "storage_m (queue s') ! (n mod ?e) = storage_m (queue s) ! (n mod ?e)"
      by (simp add: q)
    then show ?thesis using d(12) [of n] n by (simp add: q)
  qed
qed

lemma fifo_C_advance:
  assumes inv: "fifo_inv k (s, enq, deq)" and i: "i < length (threads s)"
    and pc: "threads s ! i = C_advance"
    and s': "threads s' = (threads s)[i := C_post]"
      "queue s' = (queue s)\<lparr>consume_at_m := advance (consume_at_m (queue s)) (end_m (queue s))\<rparr>"
      "produce_at_mutex_m s' = produce_at_mutex_m s" "\<not> consume_at_mutex_m s'"
  shows "fifo_inv k (s', enq, deq)"
proof (rule fifo_invI)
  note d = fifo_invD [OF inv]
  let ?e = "end_m (queue s)"
  have c: "count_at P s' = count_at P s - (if P C_advance then 1 else 0)
             + (if P C_post then 1 else 0)" for P
    using count_at_become [OF i s'(1), of P] pc by simp
  have p: "0 < count_at is_C_advance s"
    using count_at_pos [OF i, of is_C_advance] pc by simp
  have ca: "count_at is_C_advance s = 1" and ct: "count_at is_C_transfer s = 0"
    using d(5) p by (auto split: if_splits)
  have le: "length deq \<le> length enq"
    by (rule taken_length_le [OF d(13)])
  obtain m where m: "length deq = Suc m" using d(11) ca by (cases "length deq") simp_all
  have e: "0 < ?e"
  proof (rule ccontr)
    assume "\<not> 0 < ?e"
    then have "k = 0" using d(2) by simp
    then show False using d(7) le ca by simp
  qed
  have "advance (consume_at_m (queue s)) ?e = Suc (m mod ?e) mod ?e"
    using d(9) ca m e by (simp add: advance_mod)
  then have adv: "advance (consume_at_m (queue s)) ?e = length deq mod ?e"
    by (simp add: m mod_Suc_eq)
  show "end_m (queue s') = length (storage_m (queue s'))" using d(1) by (simp add: s')
  show "k \<le> end_m (queue s')" using d(2) by (simp add: s')
  show "count_at is_unwinding s' = 0" using d(3) by (simp add: c)
  show "count_at is_P_transfer s' + count_at is_P_advance s' = (if produce_at_mutex_m s' then 1 else 0)"
    using d(4) by (simp add: c s')
  show "count_at is_C_transfer s' + count_at is_C_advance s' = (if consume_at_mutex_m s' then 1 else 0)"
    using ct ca by (simp add: c s')
  show "sem_m (used_m (queue s')) + length deq
          + (count_at is_P_advance s' + count_at is_P_post s' + count_at is_C_lock s'
             + count_at is_C_transfer s') = length enq"
    using d(6) by (simp add: c s')
  show "sem_m (empty_m (queue s')) + length enq
          + (count_at is_P_lock s' + count_at is_P_transfer s' + count_at is_C_advance s'
             + count_at is_C_post s') = k + length deq"
    using d(7) ca by (simp add: c s')
  show "produce_at_m (queue s') = (length enq - count_at is_P_advance s') mod end_m (queue s')"
    using d(8) by (simp add: c s')
  show "consume_at_m (queue s') = (length deq - count_at is_C_advance s') mod end_m (queue s')"
    using ca adv by (simp add: c s')
  show "count_at is_P_advance s' \<le> length enq" using d(10) by (simp add: c)
  show "count_at is_C_advance s' \<le> length deq" using ca by (simp add: c)
  show "deq = take (length deq) enq" by (rule d(13))
  show "storage_m (queue s') ! (n mod end_m (queue s')) = enq ! n"
    if "length deq \<le> n" "n < length enq" for n
    using d(12) [of n] that by (simp add: s')
qed

lemma fifo_fire:
  assumes T: "nothrow T" and inv: "fifo_inv k (s, enq, deq)" and f: "fire T s ev = Some s'"
  shows "fifo_inv k (s', enq @ enqueued T s ev, deq @ dequeued T s ev)"
proof (cases ev)
  case (CallProduce i kd v)
  then have i: "i < length (threads s)" and idle: "threads s ! i = Idle"
    and s': "s' = s\<lparr>threads := (threads s)[i := P_wait kd v]\<rparr>"
    using f by (auto simp: fire_def split: if_splits)
  have "fifo_inv k (s', enq, deq)"
    by (rule fifo_call [OF inv i idle, of "P_wait kd v" kd v]) (simp_all add: s')
  then show ?thesis by (simp add: CallProduce enqueued_def dequeued_def)
next
  case (CallConsume i kd v)
  then have i: "i < length (threads s)" and idle: "threads s ! i = Idle"
    and s': "s' = s\<lparr>threads := (threads s)[i := C_wait kd v]\<rparr>"
    using f by (auto simp: fire_def split: if_splits)
  have "fifo_inv k (s', enq, deq)"
    by (rule fifo_call [OF inv i idle, of "C_wait kd v" kd v]) (simp_all add: s')
  then show ?thesis by (simp add: CallConsume enqueued_def dequeued_def)
next
  case (Step i)
  then have m: "move T s i = Some s'" using f by (simp add: fire_def)
  then have i: "i < length (threads s)" by (auto simp: move_def split: if_splits)
  note d = fifo_invD [OF inv]
  have nu: "\<not> is_unwinding (threads s ! i)"
    using count_at_pos [OF i, of is_unwinding] d(3) by auto
  show ?thesis
  proof (cases "threads s ! i")
    case Idle
    then show ?thesis using m i by (simp add: move_def)
  next
    case (P_wait kd v)
    then have "0 < sem_m (empty_m (queue s))"
      and "s' = s\<lparr>queue := (queue s)\<lparr>empty_m := (empty_m (queue s))\<lparr>sem_m := sem_m (empty_m (queue s)) - 1\<rparr>\<rparr>,
                   threads := (threads s)[i := P_lock kd v]\<rparr>"
      using m i by (auto simp: move_def wait_quiet Let_def split: if_splits)
    then have "fifo_inv k (s', enq, deq)"
      by (intro fifo_P_wait [OF inv i P_wait]) simp_all
    then show ?thesis using i P_wait by (simp add: Step enqueued_def dequeued_def)
  next
    case (P_lock kd v)
    then have "\<not> produce_at_mutex_m s"
      and "s' = s\<lparr>produce_at_mutex_m := True, threads := (threads s)[i := P_transfer kd v]\<rparr>"
      using m i by (auto simp: move_def Let_def split: if_splits)
    then have "fifo_inv k (s', enq, deq)"
      by (intro fifo_P_lock [OF inv i P_lock]) simp_all
    then show ?thesis using i P_lock by (simp add: Step enqueued_def dequeued_def)
  next
    case (P_transfer kd v)
    then have "s' = s\<lparr>queue := with_slot (queue s) (produce_at_m (queue s)) v,
                       threads := (threads s)[i := P_advance]\<rparr>"
      using m i by (simp add: move_def Let_def nothrow_produce_transfer [OF T])
    then have "fifo_inv k (s', enq @ [v], deq)"
      by (intro fifo_P_transfer [OF inv i P_transfer]) simp_all
    then show ?thesis
      using i P_transfer
      by (simp add: Step enqueued_def dequeued_def nothrow_produce_transfer [OF T])
  next
    case (P_catch e)
    then show ?thesis using nu by simp
  next
    case (P_rethrow e)
    then show ?thesis using nu by simp
  next
    case P_advance
    then have "s' = s\<lparr>queue := (queue s)\<lparr>produce_at_m := advance (produce_at_m (queue s)) (end_m (queue s))\<rparr>,
                       produce_at_mutex_m := False, threads := (threads s)[i := P_post]\<rparr>"
      using m i by (simp add: move_def Let_def)
    then have "fifo_inv k (s', enq, deq)"
      by (intro fifo_P_advance [OF inv i P_advance]) simp_all
    then show ?thesis using i P_advance by (simp add: Step enqueued_def dequeued_def)
  next
    case P_post
    then have "s' = s\<lparr>queue := (queue s)\<lparr>used_m := (used_m (queue s))\<lparr>sem_m := Suc (sem_m (used_m (queue s)))\<rparr>\<rparr>,
                       threads := (threads s)[i := Idle]\<rparr>"
      using m i by (simp add: move_def Let_def post_quiet)
    then have "fifo_inv k (s', enq, deq)"
      by (intro fifo_P_post [OF inv i P_post]) simp_all
    then show ?thesis using i P_post by (simp add: Step enqueued_def dequeued_def)
  next
    case (C_wait kd v)
    then have "0 < sem_m (used_m (queue s))"
      and "s' = s\<lparr>queue := (queue s)\<lparr>used_m := (used_m (queue s))\<lparr>sem_m := sem_m (used_m (queue s)) - 1\<rparr>\<rparr>,
                   threads := (threads s)[i := C_lock kd v]\<rparr>"
      using m i by (auto simp: move_def wait_quiet Let_def split: if_splits)
    then have "fifo_inv k (s', enq, deq)"
      by (intro fifo_C_wait [OF inv i C_wait]) simp_all
    then show ?thesis using i C_wait by (simp add: Step enqueued_def dequeued_def)
  next
    case (C_lock kd v)
    then have "\<not> consume_at_mutex_m s"
      and "s' = s\<lparr>consume_at_mutex_m := True, threads := (threads s)[i := C_transfer kd v]\<rparr>"
      using m i by (auto simp: move_def Let_def split: if_splits)
    then have "fifo_inv k (s', enq, deq)"
      by (intro fifo_C_lock [OF inv i C_lock]) simp_all
    then show ?thesis using i C_lock by (simp add: Step enqueued_def dequeued_def)
  next
    case (C_transfer kd out)
    let ?slot = "storage_m (queue s) ! consume_at_m (queue s)"
    let ?y = "case kd of Copy \<Rightarrow> ?slot | Swap \<Rightarrow> out"
    from C_transfer have "s' = s\<lparr>queue := with_slot (queue s) (consume_at_m (queue s)) ?y,
                       threads := (threads s)[i := C_advance]\<rparr>"
      using m i by (simp add: move_def Let_def nothrow_consume_transfer [OF T])
    then have "fifo_inv k (s', enq, deq @ [?slot])"
      by (intro fifo_C_transfer [OF inv i C_transfer, of s' ?y]) simp_all
    then show ?thesis
      using i C_transfer
      by (simp add: Step enqueued_def dequeued_def nothrow_consume_transfer [OF T])
  next
    case (C_catch e)
    then show ?thesis using nu by simp
  next
    case (C_rethrow e)
    then show ?thesis using nu by simp
  next
    case C_advance
    then have "s' = s\<lparr>queue := (queue s)\<lparr>consume_at_m := advance (consume_at_m (queue s)) (end_m (queue s))\<rparr>,
                       consume_at_mutex_m := False, threads := (threads s)[i := C_post]\<rparr>"
      using m i by (simp add: move_def Let_def)
    then have "fifo_inv k (s', enq, deq)"
      by (intro fifo_C_advance [OF inv i C_advance]) simp_all
    then show ?thesis using i C_advance by (simp add: Step enqueued_def dequeued_def)
  next
    case C_post
    then have "s' = s\<lparr>queue := (queue s)\<lparr>empty_m := (empty_m (queue s))\<lparr>sem_m := Suc (sem_m (empty_m (queue s)))\<rparr>\<rparr>,
                       threads := (threads s)[i := Idle]\<rparr>"
      using m i by (simp add: move_def Let_def post_quiet)
    then have "fifo_inv k (s', enq, deq)"
      by (intro fifo_C_post [OF inv i C_post]) simp_all
    then show ?thesis using i C_post by (simp add: Step enqueued_def dequeued_def)
  qed
qed

lemma logged_fifo_inv:
  assumes "nothrow T"
  shows "fifo_inv k c \<Longrightarrow> logged T c evs = Some c' \<Longrightarrow> fifo_inv k c'"
proof (induction evs arbitrary: c)
  case Nil
  then show ?case by simp
next
  case (Cons ev evs)
  obtain s enq deq where c: "c = (s, enq, deq)" by (cases c)
  from Cons.prems(2) obtain s' where f: "fire T s ev = Some s'"
    and l: "logged T (s', enq @ enqueued T s ev, deq @ dequeued T s ev) evs = Some c'"
    by (auto simp: c split: option.splits)
  from fifo_fire [OF assms Cons.prems(1) [unfolded c] f] l show ?case
    by (rule Cons.IH)
qed

lemma count_at_idle: "\<not> P Idle \<Longrightarrow> count_at P (idle_system q n) = 0"
  by (simp add: count_at_def idle_system_def)

lemma fifo_inv_idle:
  assumes "end_m q = length (storage_m q)" and "sem_m (empty_m q) \<le> end_m q"
    and "sem_m (used_m q) = 0" and "produce_at_m q = 0" and "consume_at_m q = 0"
  shows "fifo_inv (sem_m (empty_m q)) (idle_system q n, [], [])"
  by (rule fifo_invI) (use assms in \<open>simp_all add: count_at_idle\<close>, simp_all add: idle_system_def)

lemma PCQueue_fifo_inv:
  assumes "PCQueue T ev1 ev2 sz = Inr q0"
  shows "fifo_inv (sem_m (empty_m q0)) (idle_system q0 n, [], [])"
  by (rule fifo_inv_idle) (simp_all add: PCQueue_fresh [OF assms])

lemma logged_fifo:
  assumes "nothrow T" and "PCQueue T ev1 ev2 sz = Inr q0"
    and "logged T (idle_system q0 n, [], []) evs = Some (s, enq, deq)"
  shows "deq = take (length deq) enq"
  using fifo_invD(13) [OF logged_fifo_inv [OF assms(1) PCQueue_fifo_inv [OF assms(2)] assms(3)]] .

lemma interleaved_logged:
  "logged nat_element (idle_system nat_fresh2 3, [], []) interleaved =
     Some (idle_system (nat_fresh2\<lparr>empty_m := \<lparr>sem_m = 1\<rparr>, used_m := \<lparr>sem_m = 1\<rparr>,
              storage_m := [6, 5], produce_at_m := 0, consume_at_m := 1\<rparr>) 3, [6, 5], [6])"
  by (simp add: interleaved_def idle_system_def fire_def move_def wait_quiet post_quiet Let_def
        nat_fresh2_def numeral_2_eq_2 numeral_3_eq_3 enqueued_def dequeued_def
        produce_transfer_def consume_transfer_def nat_element_def with_slot_def advance_def)

subsection \<open>PCQueue: first-in, first-out\<close>

text \<open>
  Items leave the bounded queue in the order in which they entered it; the element type
  does not throw and the semaphore calls do not fail.

  Call by call, for a capacity \<open>k\<close> below \<open>2 ^ 32\<close>: for every sequence of \<open>Produce\<close> and
  \<open>Consume\<close> calls in which no \<open>Consume\<close> precedes its matching \<open>Produce\<close> and at most \<open>k\<close>
  items are pending at any point, every call returns, and the \<open>i\<close>-th \<open>Consume\<close> returns the
  \<open>i\<close>-th produced value: the values consumed are the first \<open>m\<close> of the values produced,
  where \<open>m\<close> is the number of \<open>Consume\<close> calls.

  Across threads, for every capacity: in every state that any number of threads reach by
  any interleaving of the steps of their operations, the items taken out of the slots,
  in the order in which the consumers took them, are the first of the items put into the
  slots, in the order in which the producers put them.
\<close>

lemma fifo_in_range:
  assumes "PCQueue T ev1 ev2 sz = Inr q0"
    and "nothrow T"
  shows "(unat sz < 2 ^ 32 \<and> (\<forall>c\<in>set cs. calm (call_env c)) \<and> within (unat sz) cs \<longrightarrow>
            (\<exists>q. run T q0 cs = Some (Inr (q, take (consumes cs) (produced cs)))))
       \<and> (logged T (idle_system q0 n, [], []) evs = Some (s, enq, deq) \<longrightarrow>
            deq = take (length deq) enq)"
proof (intro conjI impI)
  assume cs: "unat sz < 2 ^ 32 \<and> (\<forall>c\<in>set cs. calm (call_env c)) \<and> within (unat sz) cs"
  have q0: "sem_m (used_m q0) = 0" "sem_m (empty_m q0) = unat sz"
    unfolding PCQueue_fresh [OF assms(1)] using cs by simp_all
  then have "admits (sem_m (empty_m q0)) (sem_m (used_m q0)) cs"
    using cs by (simp add: within_admits)
  from run_fifo [OF assms(2) PCQueue_consistent(1) [OF assms(1)] conjunct1 [OF conjunct2 [OF cs]] this]
  show "\<exists>q. run T q0 cs = Some (Inr (q, take (consumes cs) (produced cs)))"
    by (auto simp: PCQueue_consistent(2) [OF assms(1)])
next
  assume "logged T (idle_system q0 n, [], []) evs = Some (s, enq, deq)"
  then show "deq = take (length deq) enq"
    by (rule logged_fifo [OF assms(2) assms(1)])
qed

lemma fifo_in_range_example:
  "PCQueue nat_element Succeeds Succeeds 2 = Inr nat_fresh2
   \<and> nothrow nat_element
   \<and> within 2 three_through_two
   \<and> (\<exists>q. run nat_element nat_fresh2 three_through_two = Some (Inr (q, [1, 2, 3])))
   \<and> (\<exists>s. logged nat_element (idle_system nat_fresh2 3, [], []) interleaved
              = Some (s, [6, 5], [6]))"
proof -
  have c: "\<forall>c\<in>set three_through_two. calm (call_env c)"
    by (simp add: three_through_two_def calm_quiet calm_stormy)
  have w: "within 2 three_through_two"
    by (simp add: within_admits three_through_two_def)
  note fifo = fifo_in_range [OF fresh2 nothrow_nat_element, of three_through_two 3 interleaved
      _ "[6, 5]" "[6]"]
  from fifo c w
  have "\<exists>q. run nat_element nat_fresh2 three_through_two
            = Some (Inr (q, take (consumes three_through_two) (produced three_through_two)))"
    by simp
  then have r: "\<exists>q. run nat_element nat_fresh2 three_through_two = Some (Inr (q, [1, 2, 3]))"
    by (simp add: three_through_two_def)
  show ?thesis
    using r w fresh2 nothrow_nat_element interleaved_logged by simp
qed

text \<open>
  C1. Into a queue of capacity \<open>k\<close>, every sequence of \<open>Produce\<close> and \<open>Consume\<close> calls in
  which no \<open>Consume\<close> precedes its matching \<open>Produce\<close> and at most \<open>k\<close> items are pending at
  any point is carried out, the \<open>i\<close>-th \<open>Consume\<close> returning the \<open>i\<close>-th value produced. The
  code does not do so for \<open>k = 2 ^ 32 + 2\<close>. The constructor builds \<open>2 ^ 32 + 2\<close> slots, but
  its initialiser \<open>empty_(size)\<close> converts the \<open>size_t\<close> to the \<open>unsigned int\<close> parameter of
  \<open>Semaphore\<close>, so the counter of \<open>empty_\<close> starts at 2. A thread that calls \<open>Produce(1)\<close>,
  \<open>Produce(2)\<close>, \<open>Produce(3)\<close> and \<open>Consume()\<close> keeps within three pending items, every
  \<open>Produce\<close> finding a free slot among the \<open>2 ^ 32 + 2\<close> and the \<open>Consume\<close> a filled one;
  the first two calls return, the third waits on \<open>empty_\<close> for ever, and the \<open>Consume\<close>,
  which was to return 1, is never reached.
\<close>

theorem PCQueue_blocks_within_capacity:
  "PCQueue nat_element Succeeds Succeeds 4294967298 = Inr big_queue
   \<and> unat (4294967298 :: 64 word) = 4294967298
   \<and> length (storage_m big_queue) = 4294967298
   \<and> sem_m (empty_m big_queue) = 2
   \<and> admits 4294967298 0 three_pending
   \<and> produced three_pending = [1, 2, 3]
   \<and> consumes three_pending = 1
   \<and> (\<exists>q. run nat_element big_queue [ProduceCall quiet 1, ProduceCall quiet 2]
              = Some (Inr (q, [])) \<and>
            sem_m (empty_m q) = 0 \<and> Produce nat_element quiet q 3 = None)
   \<and> run nat_element big_queue three_pending = None"
proof -
  let ?q1 = "big_queue\<lparr>empty_m := (empty_m big_queue)\<lparr>sem_m := sem_m (empty_m big_queue) - 1\<rparr>,
               storage_m := (storage_m big_queue)[produce_at_m big_queue := 1],
               produce_at_m := advance (produce_at_m big_queue) (end_m big_queue),
               used_m := (used_m big_queue)\<lparr>sem_m := Suc (sem_m (used_m big_queue))\<rparr>\<rparr>"
  let ?q2 = "?q1\<lparr>empty_m := (empty_m ?q1)\<lparr>sem_m := sem_m (empty_m ?q1) - 1\<rparr>,
               storage_m := (storage_m ?q1)[produce_at_m ?q1 := 2],
               produce_at_m := advance (produce_at_m ?q1) (end_m ?q1),
               used_m := (used_m ?q1)\<lparr>sem_m := Suc (sem_m (used_m ?q1))\<rparr>\<rparr>"
  have ctor: "PCQueue nat_element Succeeds Succeeds 4294967298 = Inr big_queue"
    by (simp add: PCQueue_def Semaphore_def sem_init_def nat_element_def big_queue_def)
  have p1: "Produce nat_element quiet big_queue 1 = Some (Inr ?q1)"
    by (rule Produce_calm [OF calm_quiet]) (simp_all add: big_queue_def nat_element_def)
  have e1: "sem_m (empty_m ?q1) = 1" by (simp add: big_queue_def)
  have p2: "Produce nat_element quiet ?q1 2 = Some (Inr ?q2)"
    by (rule Produce_calm [OF calm_quiet]) (simp_all add: big_queue_def nat_element_def)
  have e2: "sem_m (empty_m ?q2) = 0" by (simp add: big_queue_def)
  have p3: "Produce nat_element quiet ?q2 3 = None"
    by (rule Produce_blocks [OF calm_quiet e2])
  have r2: "run nat_element big_queue [ProduceCall quiet 1, ProduceCall quiet 2] = Some (Inr (?q2, []))"
    by (simp only: run.simps p1 p2 option.simps sum.simps)
  have r: "run nat_element big_queue three_pending = None"
    unfolding three_pending_def by (simp only: run.simps p1 p2 p3 option.simps sum.simps)
  have "\<exists>q. run nat_element big_queue [ProduceCall quiet 1, ProduceCall quiet 2]
              = Some (Inr (q, [])) \<and>
            sem_m (empty_m q) = 0 \<and> Produce nat_element quiet q 3 = None"
    using r2 e2 p3 by blast
  moreover have "unat (4294967298 :: 64 word) = 4294967298" by simp
  moreover have "length (storage_m big_queue) = 4294967298" "sem_m (empty_m big_queue) = 2"
    by (simp_all add: big_queue_def)
  moreover have "admits 4294967298 0 three_pending"
    "produced three_pending = [1, 2, 3]" "consumes three_pending = 1"
    by (simp_all add: three_pending_def)
  ultimately show ?thesis using ctor r by simp
qed

end
